theory Spec2Isabelle
  imports Main "HOL-Library.Word" "HOL-Library.Multiset" "HOL-Library.List_Lexorder"
begin

section \<open>Export objects: registry and file-name massaging (epan/export\_object.c)\<close>

text \<open>
  Conventions of the embedding.
  \<^item> A C string is the list of its bytes before the terminating NUL (\<^typ>\<open>string\<close>); a
    \<open>char *\<close> into a string is the remaining suffix, so \<open>*p\<close> is the head, \<open>p + 1\<close> the
    tail and \<open>p - q\<close> a difference of lengths. A function that may return \<open>NULL\<close> returns an
    \<^typ>\<open>'a option\<close>.
  \<^item> A \<open>GString\<close> is the list of its bytes; its \<open>len\<close> field is the length of that list.
  \<^item> \<open>gsize\<close> and \<open>size_t\<close> are 64-bit unsigned integers. A \<open>gsize\<close> argument is a
    \<^typ>\<open>64 word\<close>; the length of a string in memory is a natural number below \<open>2 ^ 64\<close>, and
    a subtraction of such sizes wraps around (\<open>gsize_sub\<close>).
  \<^item> \<open>EXPORT_OBJECT_MAXFILELEN\<close> is a macro defined in export\_object.h; here it is a
    parameter \<open>M\<close> of the functions that use it (an \<open>int\<close> constant, converted to \<open>size_t\<close>
    by the arithmetic it appears in).
\<close>

type_synonym gsize = "64 word"

subsection \<open>Library functions used by the code (libc, GLib)\<close>

text \<open>\<open>strpbrk(s, accept)\<close>: the first position of \<open>s\<close> holding a byte of \<open>accept\<close>.\<close>

fun strpbrk :: "string \<Rightarrow> string \<Rightarrow> string option" where
  "strpbrk [] accept = None"
| "strpbrk (c # s) accept = (if c \<in> set accept then Some (c # s) else strpbrk s accept)"

text \<open>\<open>strrchr(s, c)\<close> for a byte \<open>c\<close> other than NUL: the last position of \<open>s\<close> holding \<open>c\<close>.\<close>

fun strrchr :: "string \<Rightarrow> char \<Rightarrow> string option" where
  "strrchr [] c = None"
| "strrchr (x # s) c =
     (case strrchr s c of
        Some p \<Rightarrow> Some p
      | None \<Rightarrow> if x = c then Some (x # s) else None)"

text \<open>\<open>a - b\<close> on two \<open>gsize\<close> values, each given by its value below \<open>2 ^ 64\<close>.\<close>

definition gsize_sub :: "nat \<Rightarrow> nat \<Rightarrow> nat" where
  "gsize_sub a b = (if b \<le> a then a - b else 2 ^ 64 - (b - a))"

text \<open>\<open>g_string_truncate(string, len)\<close>: \<open>string->len = MIN (len, string->len)\<close>.\<close>

definition g_string_truncate :: "string \<Rightarrow> nat \<Rightarrow> string" where
  "g_string_truncate gstr len = take len gstr"

text \<open>The conversions \<open>%x\<close> and \<open>%d\<close> of \<open>printf\<close>, and \<open>%02x\<close>: at least two digits,
  padded with zeros on the left.\<close>

definition hex_digit :: "nat \<Rightarrow> char" where
  "hex_digit d = ''0123456789abcdef'' ! (d mod 16)"

fun printf_x :: "nat \<Rightarrow> string" where
  "printf_x n = (if n < 16 then [hex_digit n] else printf_x (n div 16) @ [hex_digit (n mod 16)])"

definition printf_02x :: "nat \<Rightarrow> string" where
  "printf_02x n = (let s = printf_x n in replicate (2 - length s) (CHR ''0'') @ s)"

definition dec_digit :: "nat \<Rightarrow> char" where
  "dec_digit d = ''0123456789'' ! (d mod 10)"

fun printf_u :: "nat \<Rightarrow> string" where
  "printf_u n = (if n < 10 then [dec_digit n] else printf_u (n div 10) @ [dec_digit (n mod 10)])"

definition printf_d :: "int \<Rightarrow> string" where
  "printf_d i = (if i < 0 then CHR ''-'' # printf_u (nat (- i)) else printf_u (nat i))"

subsection \<open>eo\_rename and eo\_massage\_str\<close>

text \<open>The bytes \<open>eo_massage_str\<close> rejects: \<open>< > : " / \ | ? *\<close> and 0x01 to 0x1f.\<close>

definition reject :: string where
  "reject = [CHR ''<'', CHR ''>'', CHR '':'', CHR 0x22, CHR ''/'', CHR 0x5C, CHR ''|'',
             CHR ''?'', CHR ''*'',
             CHR 0x01, CHR 0x02, CHR 0x03, CHR 0x04, CHR 0x05, CHR 0x06, CHR 0x07, CHR 0x08,
             CHR 0x09, CHR 0x0A, CHR 0x0B, CHR 0x0C, CHR 0x0D, CHR 0x0E, CHR 0x0F, CHR 0x10,
             CHR 0x11, CHR 0x12, CHR 0x13, CHR 0x14, CHR 0x15, CHR 0x16, CHR 0x17, CHR 0x18,
             CHR 0x19, CHR 0x1A, CHR 0x1B, CHR 0x1C, CHR 0x1D, CHR 0x1E, CHR 0x1F]"

text \<open>
  \<open>eo_rename(gstr, dupn)\<close>. The duplicate number is only printed, so it is an \<^typ>\<open>int\<close>.
  Both bounds are computed in \<open>size_t\<close>, as in
  \<open>EXPORT_OBJECT_MAXFILELEN - (strlen(gstr_tmp->str) + ext_str->len)\<close>.
\<close>

definition eo_rename :: "gsize \<Rightarrow> string \<Rightarrow> int \<Rightarrow> string" where
  "eo_rename M gstr dupn =
     (let gstr_tmp = ''('' @ printf_d dupn @ '')'' in
      case strrchr gstr (CHR ''.'') of
        Some ext_str \<Rightarrow>
          (let gstr1 = g_string_truncate gstr (gsize_sub (length gstr) (length ext_str));
               bound = gsize_sub (unat M) (length gstr_tmp + length ext_str);
               gstr2 = (if bound \<le> length gstr1 then g_string_truncate gstr1 bound
                        else gstr1)
           in gstr2 @ gstr_tmp @ ext_str)
      | None \<Rightarrow>
          (let bound = gsize_sub (unat M) (length gstr_tmp);
               gstr2 = (if bound \<le> length gstr then g_string_truncate gstr bound
                        else gstr)
           in gstr2 @ gstr_tmp))"

text \<open>
  The loop of \<open>eo_massage_str\<close> that replaces the rejected bytes, with \<open>out_str\<close> and
  \<open>in_str\<close> as its state:
  \<^verbatim>\<open>while ( (tmp_ptr = strpbrk(in_str, reject)) != NULL ) {
    out_str = g_string_append_len(out_str, in_str, tmp_ptr - in_str);
    g_string_append_printf(out_str, "%%%02x", *tmp_ptr);
    in_str = tmp_ptr + 1;
}
out_str = g_string_append(out_str, in_str);\<close>
\<close>

function eo_escape_loop :: "string \<Rightarrow> string \<Rightarrow> string" where
  "eo_escape_loop out_str in_str =
     (case strpbrk in_str reject of
        Some tmp_ptr \<Rightarrow>
          eo_escape_loop
            (out_str @ take (length in_str - length tmp_ptr) in_str
                     @ ''%'' @ printf_02x (of_char (hd tmp_ptr)))
            (tl tmp_ptr)
      | None \<Rightarrow> out_str @ in_str)"
  by pat_completeness auto
termination
proof (relation "measure (\<lambda>(out_str, in_str). length in_str)")
  show "wf (measure (\<lambda>(out_str, in_str). length in_str))" by simp
next
  fix out_str in_str :: string and tmp_ptr
  have inside: "strpbrk s reject = Some p \<Longrightarrow> p \<noteq> [] \<and> length p \<le> length s" for s p
    by (induction s) (auto split: if_splits)
  assume "strpbrk in_str reject = Some tmp_ptr"
  then have "tmp_ptr \<noteq> [] \<and> length tmp_ptr \<le> length in_str"
    by (rule inside)
  then have "length (tl tmp_ptr) < length in_str"
    by (cases tmp_ptr) auto
  then show "((out_str @ take (length in_str - length tmp_ptr) in_str
                @ ''%'' @ printf_02x (of_char (hd tmp_ptr)), tl tmp_ptr),
              (out_str, in_str)) \<in> measure (\<lambda>(out_str, in_str). length in_str)"
    by simp
qed

declare eo_escape_loop.simps [simp del]

text \<open>\<open>eo_massage_str(in_str, maxlen, dupn)\<close>.\<close>

definition eo_massage_str :: "gsize \<Rightarrow> string \<Rightarrow> gsize \<Rightarrow> int \<Rightarrow> string" where
  "eo_massage_str M in_str maxlen dupn =
     (let out_str = eo_escape_loop [] in_str;
          out_str =
            (if unat maxlen < length out_str then
               (case strrchr out_str (CHR ''.'') of
                  Some ext_str \<Rightarrow>
                    g_string_truncate out_str (gsize_sub (unat maxlen) (length ext_str))
                      @ ext_str
                | None \<Rightarrow> g_string_truncate out_str (unat maxlen))
             else out_str)
      in if dupn \<noteq> 0 then eo_rename M out_str dupn else out_str)"

text \<open>
  The escaping as the specification words it: each rejected byte becomes \<open>%\<close> and the two
  lowercase hexadecimal digits of its value, every other byte is copied. This definition is
  written from the specification, to be compared with \<open>eo_escape_loop\<close>.
\<close>

definition percent_escape :: "char \<Rightarrow> string" where
  "percent_escape c = [CHR ''%'', hex_digit (of_char c div 16), hex_digit (of_char c mod 16)]"

definition escape_spec :: "string \<Rightarrow> string" where
  "escape_spec s = concat (map (\<lambda>c. if c \<in> set reject then percent_escape c else [c]) s)"

text \<open>The extension of a name: the part from its last \<open>.\<close> on, empty when it has none.\<close>

definition extension_of :: "string \<Rightarrow> string" where
  "extension_of s = (case strrchr s (CHR ''.'') of Some ext_str \<Rightarrow> ext_str | None \<Rightarrow> [])"

subsection \<open>More library functions (libc, GLib)\<close>

text \<open>\<open>strcmp(s1, s2)\<close>: negative, zero or positive as the first string is less than, equal
  to or greater than the second, bytes compared as \<open>unsigned char\<close>. Only the sign is fixed
  by the C standard; a proper prefix is the smaller string.\<close>

fun strcmp :: "string \<Rightarrow> string \<Rightarrow> int" where
  "strcmp [] [] = 0"
| "strcmp [] (c2 # s2) = - 1"
| "strcmp (c1 # s1) [] = 1"
| "strcmp (c1 # s1) (c2 # s2) =
     (if c1 = c2 then strcmp s1 s2
      else if (of_char c1 :: nat) < of_char c2 then - 1 else 1)"

text \<open>GLib's \<open>TOLOWER\<close> and \<open>g_ascii_strcasecmp\<close>:
  \<^verbatim>\<open>while (*s1 && *s2) {
    c1 = (gint)(guchar) TOLOWER (*s1);
    c2 = (gint)(guchar) TOLOWER (*s2);
    if (c1 != c2) return (c1 - c2);
    s1++; s2++;
}
return (((gint)(guchar) *s1) - ((gint)(guchar) *s2));\<close>
  The byte under a pointer that has reached the end of the list is the terminating NUL.\<close>

definition TOLOWER :: "char \<Rightarrow> int" where
  "TOLOWER c = (if of_char (CHR ''A'') \<le> (of_char c :: int) \<and> (of_char c :: int) \<le> of_char (CHR ''Z'')
                then of_char c - of_char (CHR ''A'') + of_char (CHR ''a'')
                else of_char c)"

fun g_ascii_strcasecmp :: "string \<Rightarrow> string \<Rightarrow> int" where
  "g_ascii_strcasecmp (c1 # s1) (c2 # s2) =
     (if c1 \<noteq> CHR 0x00 \<and> c2 \<noteq> CHR 0x00 then
        (if TOLOWER c1 \<noteq> TOLOWER c2 then TOLOWER c1 - TOLOWER c2
         else g_ascii_strcasecmp s1 s2)
      else of_char c1 - of_char c2)"
| "g_ascii_strcasecmp [] (c2 # s2) = 0 - of_char c2"
| "g_ascii_strcasecmp (c1 # s1) [] = of_char c1 - 0"
| "g_ascii_strcasecmp [] [] = 0"

subsection \<open>The registry\<close>

text \<open>
  A function pointer is an address, \<open>None\<close> for \<open>NULL\<close>. The records of type
  \<open>register_eo_t\<close> live in a heap of their own, in the order in which \<open>g_new\<close> allocated
  them: a \<open>register_eo_t *\<close> is an index into it (\<open>None\<close> for \<open>NULL\<close>), and nothing is ever
  freed. The static list \<open>registered_eo_tables\<close> holds such pointers.
\<close>

type_synonym tap_packet_cb = "nat option"
type_synonym export_object_gui_reset_cb = "nat option"

record register_eo =
  proto_id :: int
  tap_listen_str :: string
  eo_func :: tap_packet_cb
  reset_cb :: export_object_gui_reset_cb

record eo_state =
  eo_heap :: "register_eo list"
  registered_eo_tables :: "nat list"

text \<open>\<open>static GSList *registered_eo_tables = NULL;\<close>\<close>

definition eo_init :: eo_state where
  "eo_init = \<lparr>eo_heap = [], registered_eo_tables = []\<rparr>"

text \<open>What does not return: the failed \<open>DISSECTOR_ASSERT\<close>, and the use of a pointer that
  is \<open>NULL\<close> or points to no record.\<close>

datatype eo_error = Assertion_Failed | Invalid_Pointer

definition deref :: "register_eo list \<Rightarrow> nat \<Rightarrow> eo_error + register_eo" where
  "deref heap p = (if p < length heap then Inr (heap ! p) else Inl Invalid_Pointer)"

text \<open>\<open>proto_get_protocol_filter_name\<close> (proto.c) and \<open>register_tap\<close> (tap.c) are defined
  outside export\_object.c: here they are parameters of the functions that call them.\<close>

definition insert_sorted_by_table_name ::
    "(int \<Rightarrow> string) \<Rightarrow> register_eo list \<Rightarrow> nat \<Rightarrow> nat \<Rightarrow> eo_error + int" where
  "insert_sorted_by_table_name proto_get_protocol_filter_name heap aparam bparam =
     (case deref heap aparam of
        Inl e \<Rightarrow> Inl e
      | Inr a \<Rightarrow>
          (case deref heap bparam of
             Inl e \<Rightarrow> Inl e
           | Inr b \<Rightarrow>
               Inr (g_ascii_strcasecmp (proto_get_protocol_filter_name (proto_id a))
                                       (proto_get_protocol_filter_name (proto_id b)))))"

text \<open>\<open>g_slist_insert_sorted(list, data, func)\<close>: \<open>data\<close> goes before the first element
  \<open>x\<close> with \<open>func(data, x) <= 0\<close>, at the end when there is none.\<close>

fun g_slist_insert_sorted ::
    "'a list \<Rightarrow> 'a \<Rightarrow> ('a \<Rightarrow> 'a \<Rightarrow> eo_error + int) \<Rightarrow> eo_error + 'a list" where
  "g_slist_insert_sorted [] data func = Inr [data]"
| "g_slist_insert_sorted (x # list) data func =
     (case func data x of
        Inl e \<Rightarrow> Inl e
      | Inr cmp \<Rightarrow>
          if 0 < cmp then
            (case g_slist_insert_sorted list data func of
               Inl e \<Rightarrow> Inl e
             | Inr new_list \<Rightarrow> Inr (x # new_list))
          else Inr (data # x # list))"

text \<open>\<open>g_slist_nth(list, n)\<close>: the rest of the list from position \<open>n\<close>, \<open>NULL\<close> off its end.\<close>

definition g_slist_nth :: "'a list \<Rightarrow> nat \<Rightarrow> 'a list option" where
  "g_slist_nth list n = (if n < length list then Some (drop n list) else None)"

text \<open>\<open>g_slist_foreach(list, func, user_data)\<close>; what \<open>func\<close> does is a change of a state
  \<open>w\<close> of its own.\<close>

fun g_slist_foreach :: "'a list \<Rightarrow> ('a \<Rightarrow> 'u \<Rightarrow> 'w \<Rightarrow> 'w) \<Rightarrow> 'u \<Rightarrow> 'w \<Rightarrow> 'w" where
  "g_slist_foreach [] func user_data w = w"
| "g_slist_foreach (x # list) func user_data w =
     g_slist_foreach list func user_data (func x user_data w)"

text \<open>\<open>register_export_object(proto_id, export_packet_func, reset_cb)\<close>, returning the
  value of \<open>register_tap\<close> and the new state.\<close>

definition register_export_object ::
    "(int \<Rightarrow> string) \<Rightarrow> (string \<Rightarrow> int) \<Rightarrow> eo_state \<Rightarrow>
     int \<Rightarrow> tap_packet_cb \<Rightarrow> export_object_gui_reset_cb \<Rightarrow> eo_error + (int \<times> eo_state)" where
  "register_export_object proto_get_protocol_filter_name register_tap s
       proto_id' export_packet_func reset_cb' =
     (if export_packet_func = None then Inl Assertion_Failed
      else
        let table = length (eo_heap s);
            heap = eo_heap s @
                     [\<lparr>proto_id = proto_id',
                       tap_listen_str = proto_get_protocol_filter_name proto_id' @ ''_eo'',
                       eo_func = export_packet_func,
                       reset_cb = reset_cb'\<rparr>]
        in case g_slist_insert_sorted (registered_eo_tables s) table
                  (insert_sorted_by_table_name proto_get_protocol_filter_name heap) of
             Inl e \<Rightarrow> Inl e
           | Inr new_list \<Rightarrow>
               Inr (register_tap (tap_listen_str (heap ! table)),
                    \<lparr>eo_heap = heap, registered_eo_tables = new_list\<rparr>))"

text \<open>The accessors. Only \<open>get_eo_proto_id\<close> tests its argument.\<close>

definition get_eo_proto_id :: "eo_state \<Rightarrow> nat option \<Rightarrow> eo_error + int" where
  "get_eo_proto_id s eo =
     (case eo of
        None \<Rightarrow> Inr (- 1)
      | Some p \<Rightarrow> (case deref (eo_heap s) p of Inl e \<Rightarrow> Inl e | Inr r \<Rightarrow> Inr (proto_id r)))"

definition get_eo_tap_listener_name :: "eo_state \<Rightarrow> nat option \<Rightarrow> eo_error + string" where
  "get_eo_tap_listener_name s eo =
     (case eo of
        None \<Rightarrow> Inl Invalid_Pointer
      | Some p \<Rightarrow> (case deref (eo_heap s) p of Inl e \<Rightarrow> Inl e | Inr r \<Rightarrow> Inr (tap_listen_str r)))"

definition get_eo_packet_func :: "eo_state \<Rightarrow> nat option \<Rightarrow> eo_error + tap_packet_cb" where
  "get_eo_packet_func s eo =
     (case eo of
        None \<Rightarrow> Inl Invalid_Pointer
      | Some p \<Rightarrow> (case deref (eo_heap s) p of Inl e \<Rightarrow> Inl e | Inr r \<Rightarrow> Inr (eo_func r)))"

definition get_eo_reset_func ::
    "eo_state \<Rightarrow> nat option \<Rightarrow> eo_error + export_object_gui_reset_cb" where
  "get_eo_reset_func s eo =
     (case eo of
        None \<Rightarrow> Inl Invalid_Pointer
      | Some p \<Rightarrow> (case deref (eo_heap s) p of Inl e \<Rightarrow> Inl e | Inr r \<Rightarrow> Inr (reset_cb r)))"

text \<open>\<open>get_eo_by_name(name)\<close>: the loop over \<open>i\<close> (its bound \<open>size\<close> is \<open>sz\<close> here), then the function.\<close>

function get_eo_by_name_loop ::
    "(int \<Rightarrow> string) \<Rightarrow> eo_state \<Rightarrow> string \<Rightarrow> nat \<Rightarrow> nat \<Rightarrow> eo_error + nat option" where
  "get_eo_by_name_loop proto_get_protocol_filter_name s name i sz =
     (if i < sz then
        (case g_slist_nth (registered_eo_tables s) i of
           None \<Rightarrow> Inl Invalid_Pointer
         | Some slist \<Rightarrow>
             (case deref (eo_heap s) (hd slist) of
                Inl e \<Rightarrow> Inl e
              | Inr eo \<Rightarrow>
                  if strcmp name (proto_get_protocol_filter_name (proto_id eo)) = 0
                  then Inr (Some (hd slist))
                  else get_eo_by_name_loop proto_get_protocol_filter_name s name (i + 1) sz))
      else Inr None)"
  by pat_completeness auto
termination
  by (relation "measure (\<lambda>(f, s, name, i, sz). sz - i)") auto

declare get_eo_by_name_loop.simps [simp del]

definition get_eo_by_name :: "(int \<Rightarrow> string) \<Rightarrow> eo_state \<Rightarrow> string \<Rightarrow> eo_error + nat option" where
  "get_eo_by_name proto_get_protocol_filter_name s name =
     get_eo_by_name_loop proto_get_protocol_filter_name s name 0
       (length (registered_eo_tables s))"

text \<open>\<open>eo_iterate_tables(func, user_data)\<close>.\<close>

definition eo_iterate_tables :: "eo_state \<Rightarrow> (nat \<Rightarrow> 'u \<Rightarrow> 'w \<Rightarrow> 'w) \<Rightarrow> 'u \<Rightarrow> 'w \<Rightarrow> 'w" where
  "eo_iterate_tables s func user_data w =
     g_slist_foreach (registered_eo_tables s) func user_data w"

text \<open>\<open>eo_ct2ext(content_type)\<close>, on a string that may be \<open>NULL\<close>.\<close>

definition eo_ct2ext :: "string option \<Rightarrow> string option" where
  "eo_ct2ext content_type = content_type"

text \<open>A sequence of calls of \<open>register_export_object\<close>, each with its protocol and its two
  callbacks; it ends at the first call that does not return.\<close>

fun register_all ::
    "(int \<Rightarrow> string) \<Rightarrow> (string \<Rightarrow> int) \<Rightarrow> eo_state \<Rightarrow>
     (int \<times> tap_packet_cb \<times> export_object_gui_reset_cb) list \<Rightarrow> eo_error + eo_state" where
  "register_all proto_get_protocol_filter_name register_tap s [] = Inr s"
| "register_all proto_get_protocol_filter_name register_tap s ((p, f, r) # calls) =
     (case register_export_object proto_get_protocol_filter_name register_tap s p f r of
        Inl e \<Rightarrow> Inl e
      | Inr (token, s') \<Rightarrow> register_all proto_get_protocol_filter_name register_tap s' calls)"

text \<open>The filter names of the registered tables, in the order of the list.\<close>

definition table_names :: "(int \<Rightarrow> string) \<Rightarrow> eo_state \<Rightarrow> string list" where
  "table_names proto_get_protocol_filter_name s =
     map (\<lambda>p. proto_get_protocol_filter_name (proto_id (eo_heap s ! p))) (registered_eo_tables s)"

subsection \<open>Notions used to state the properties\<close>

text \<open>What \<open>g_ascii_strcasecmp\<close> compares: the bytes before the first NUL, upper case
  letters folded to lower case.\<close>

definition casefold_key :: "string \<Rightarrow> int list" where
  "casefold_key s = map TOLOWER (takeWhile (\<lambda>c. c \<noteq> CHR 0x00) s)"

text \<open>Every pointer in the list points to a record.\<close>

definition eo_valid :: "eo_state \<Rightarrow> bool" where
  "eo_valid s \<longleftrightarrow> (\<forall>p \<in> set (registered_eo_tables s). p < length (eo_heap s))"

text \<open>The order of \<open>insert_sorted_by_table_name\<close> on two pointers to records.\<close>

definition table_le :: "(int \<Rightarrow> string) \<Rightarrow> register_eo list \<Rightarrow> nat \<Rightarrow> nat \<Rightarrow> bool" where
  "table_le pfn heap a b \<longleftrightarrow>
     g_ascii_strcasecmp (pfn (proto_id (heap ! a))) (pfn (proto_id (heap ! b))) \<le> 0"

text \<open>The record that a call of \<open>register_export_object\<close> creates.\<close>

definition new_table ::
    "(int \<Rightarrow> string) \<Rightarrow> int \<times> tap_packet_cb \<times> export_object_gui_reset_cb \<Rightarrow> register_eo" where
  "new_table pfn c =
     \<lparr>proto_id = fst c, tap_listen_str = pfn (fst c) @ ''_eo'',
      eo_func = fst (snd c), reset_cb = snd (snd c)\<rparr>"

text \<open>A small instance of the two functions that are parameters, of a sequence of calls
  and of the state they lead to, for the concrete instances of the theorems.\<close>

definition demo_filter_name :: "int \<Rightarrow> string" where
  "demo_filter_name p = (if p = 1 then ''smb'' else if p = 2 then ''HTTP'' else ''dicom'')"

definition demo_register_tap :: "string \<Rightarrow> int" where
  "demo_register_tap name = int (length name)"

definition demo_calls :: "(int \<times> tap_packet_cb \<times> export_object_gui_reset_cb) list" where
  "demo_calls = [(1, Some 7, None), (2, Some 8, Some 9), (3, Some 5, None)]"

definition demo_state :: eo_state where
  "demo_state =
     \<lparr>eo_heap = [\<lparr>proto_id = 1, tap_listen_str = ''smb_eo'', eo_func = Some 7, reset_cb = None\<rparr>,
                  \<lparr>proto_id = 2, tap_listen_str = ''HTTP_eo'', eo_func = Some 8, reset_cb = Some 9\<rparr>,
                  \<lparr>proto_id = 3, tap_listen_str = ''dicom_eo'', eo_func = Some 5, reset_cb = None\<rparr>],
      registered_eo_tables = [2, 1, 0]\<rparr>"

section \<open>Properties of the file-name massaging\<close>

subsection \<open>The escaping loop\<close>

lemma strpbrk_length: "strpbrk s accept = Some p \<Longrightarrow> p \<noteq> [] \<and> length p \<le> length s"
  by (induction s) (auto split: if_splits)

lemma of_char_lt: "(of_char c :: nat) < 256"
  by (cases c) simp

lemma printf_02x_byte: "n < 256 \<Longrightarrow> printf_02x n = [hex_digit (n div 16), hex_digit (n mod 16)]"
proof (cases "n < 16")
  case True
  then show ?thesis by (simp add: printf_02x_def hex_digit_def)
next
  case False
  assume "n < 256"
  then have "n div 16 < 16" by simp
  with False show ?thesis by (simp add: printf_02x_def)
qed

lemma strpbrk_Some:
  "strpbrk s accept = Some p \<Longrightarrow>
     s = take (length s - length p) s @ p \<and> p \<noteq> [] \<and> hd p \<in> set accept \<and>
     (\<forall>c \<in> set (take (length s - length p) s). c \<notin> set accept)"
proof (induction s)
  case Nil
  then show ?case by simp
next
  case (Cons a s)
  show ?case
  proof (cases "a \<in> set accept")
    case True
    with Cons.prems show ?thesis by auto
  next
    case False
    with Cons.prems have p: "strpbrk s accept = Some p" by simp
    from strpbrk_length [OF p] have "length p \<le> length s" by simp
    then have "Suc (length s) - length p = Suc (length s - length p)" by simp
    with Cons.IH [OF p] False show ?thesis by auto
  qed
qed

lemma strpbrk_None: "strpbrk s accept = None \<Longrightarrow> \<forall>c \<in> set s. c \<notin> set accept"
  by (induction s) (auto split: if_splits)

lemma escape_spec_safe: "\<forall>c \<in> set s. c \<notin> set reject \<Longrightarrow> escape_spec s = s"
  by (induction s) (auto simp: escape_spec_def)

lemma escape_spec_append: "escape_spec (a @ b) = escape_spec a @ escape_spec b"
  by (simp add: escape_spec_def)

lemma eo_escape_loop_spec: "eo_escape_loop out_str in_str = out_str @ escape_spec in_str"
proof (induction out_str in_str rule: eo_escape_loop.induct)
  case (1 out_str in_str)
  show ?case
  proof (cases "strpbrk in_str reject")
    case None
    from strpbrk_None [OF None] have "escape_spec in_str = in_str"
      by (rule escape_spec_safe)
    with None show ?thesis by (subst eo_escape_loop.simps) simp
  next
    case (Some p)
    let ?pre = "take (length in_str - length p) in_str"
    from strpbrk_Some [OF Some] have split: "in_str = ?pre @ p" and ne: "p \<noteq> []"
      and hd: "hd p \<in> set reject" and safe: "\<forall>c \<in> set ?pre. c \<notin> set reject"
      by auto
    from ne obtain c r where p: "p = c # r" by (cases p) auto
    have "escape_spec in_str = escape_spec ?pre @ escape_spec p"
      using split escape_spec_append by metis
    also have "escape_spec ?pre = ?pre" using safe by (rule escape_spec_safe)
    also have "escape_spec p = percent_escape c @ escape_spec r"
      using hd p by (simp add: escape_spec_def)
    finally have e: "escape_spec in_str = ?pre @ percent_escape c @ escape_spec r" .
    have pe: "''%'' @ printf_02x (of_char c) = percent_escape c"
      by (simp add: percent_escape_def printf_02x_byte [OF of_char_lt])
    have "eo_escape_loop out_str in_str =
            eo_escape_loop (out_str @ ?pre @ ''%'' @ printf_02x (of_char (hd p))) (tl p)"
      using Some by (subst eo_escape_loop.simps) simp
    also have "\<dots> = (out_str @ ?pre @ ''%'' @ printf_02x (of_char (hd p))) @ escape_spec (tl p)"
      using "1.IH" [OF Some] .
    finally show ?thesis using e pe p by simp
  qed
qed


lemma strrchr_None: "strrchr s c = None \<longleftrightarrow> c \<notin> set s"
  by (induction s) (auto split: option.splits)

lemma strrchr_notin: "c \<notin> set s \<Longrightarrow> strrchr s c = None"
  by (simp add: strrchr_None)

lemma strrchr_append: "c \<notin> set r \<Longrightarrow> strrchr (stem @ c # r) c = Some (c # r)"
  by (induction stem) (simp_all add: strrchr_notin)

lemma strrchr_Some:
  "strrchr s c = Some p \<Longrightarrow> \<exists>stem r. s = stem @ c # r \<and> p = c # r \<and> c \<notin> set r"
proof (induction s)
  case Nil
  then show ?case by simp
next
  case (Cons x s)
  show ?case
  proof (cases "strrchr s c")
    case None
    with Cons.prems have "x = c" and "p = x # s" by (auto split: if_splits)
    moreover from None have "c \<notin> set s" by (simp add: strrchr_None)
    ultimately have "x # s = [] @ c # s \<and> p = c # s \<and> c \<notin> set s" by simp
    then show ?thesis by blast
  next
    case (Some q)
    with Cons.prems have "q = p" by simp
    with Some Cons.IH obtain stem r where "s = stem @ c # r" "p = c # r" "c \<notin> set r" by blast
    then have "x # s = (x # stem) @ c # r \<and> p = c # r \<and> c \<notin> set r" by simp
    then show ?thesis by blast
  qed
qed

lemma gsize_sub_le: "b \<le> a \<Longrightarrow> gsize_sub a b = a - b"
  by (simp add: gsize_sub_def)

subsection \<open>The three steps of eo\_massage\_str\<close>

lemma massage_fits:
  "length (escape_spec s) \<le> unat maxlen \<Longrightarrow> eo_massage_str M s maxlen 0 = escape_spec s"
  by (simp add: eo_massage_str_def eo_escape_loop_spec)

lemma massage_nodot:
  "unat maxlen < length (escape_spec s) \<Longrightarrow> CHR ''.'' \<notin> set (escape_spec s) \<Longrightarrow>
   eo_massage_str M s maxlen 0 = take (unat maxlen) (escape_spec s)"
  using strrchr_None [of "escape_spec s" "CHR ''.''"]
  by (simp add: eo_massage_str_def eo_escape_loop_spec g_string_truncate_def)

lemma massage_dot:
  "unat maxlen < length (escape_spec s) \<Longrightarrow> escape_spec s = stem @ CHR ''.'' # r \<Longrightarrow>
   CHR ''.'' \<notin> set r \<Longrightarrow>
   eo_massage_str M s maxlen 0 =
     take (gsize_sub (unat maxlen) (Suc (length r))) (stem @ CHR ''.'' # r) @ CHR ''.'' # r"
  using strrchr_append [of "CHR ''.''" r stem]
  by (simp add: eo_massage_str_def eo_escape_loop_spec g_string_truncate_def)

lemma massage_dup:
  "dupn \<noteq> 0 \<Longrightarrow> eo_massage_str M s maxlen dupn = eo_rename M (eo_massage_str M s maxlen 0) dupn"
  by (simp add: eo_massage_str_def Let_def)

lemma eo_rename_dot:
  "CHR ''.'' \<notin> set r \<Longrightarrow>
   eo_rename M (stem @ CHR ''.'' # r) dupn =
     (let bound = gsize_sub (unat M) (length (''('' @ printf_d dupn @ '')'') + Suc (length r))
      in (if bound \<le> length stem then take bound stem else stem)
           @ ''('' @ printf_d dupn @ '')'' @ CHR ''.'' # r)"
  using strrchr_append [of "CHR ''.''" r stem]
  by (simp add: eo_rename_def g_string_truncate_def gsize_sub_le Let_def)

lemma eo_rename_nodot:
  "CHR ''.'' \<notin> set gstr \<Longrightarrow>
   eo_rename M gstr dupn =
     (let bound = gsize_sub (unat M) (length (''('' @ printf_d dupn @ '')''))
      in (if bound \<le> length gstr then take bound gstr else gstr) @ ''('' @ printf_d dupn @ '')'')"
  using strrchr_None [of gstr "CHR ''.''"]
  by (simp add: eo_rename_def g_string_truncate_def Let_def)


lemma extension_of_dot: "CHR ''.'' \<notin> set r \<Longrightarrow> extension_of (stem @ CHR ''.'' # r) = CHR ''.'' # r"
  by (simp add: extension_of_def strrchr_append)

lemma extension_of_nodot: "CHR ''.'' \<notin> set s \<Longrightarrow> extension_of s = []"
  by (simp add: extension_of_def strrchr_notin)

lemma extension_cases:
  obtains (nodot) "CHR ''.'' \<notin> set s" "extension_of s = []"
  | (dot) stem r where "s = stem @ CHR ''.'' # r" "CHR ''.'' \<notin> set r" "extension_of s = CHR ''.'' # r"
proof (cases "strrchr s (CHR ''.'')")
  case None
  then have "CHR ''.'' \<notin> set s" by (simp add: strrchr_None)
  then show ?thesis using nodot extension_of_nodot by blast
next
  case (Some p)
  from strrchr_Some [OF Some] obtain stem r
    where "s = stem @ CHR ''.'' # r" "CHR ''.'' \<notin> set r" by blast
  then show ?thesis using dot extension_of_dot by blast
qed

lemma massage_0_shape:
  obtains (nodot) "extension_of (escape_spec s) = []" "CHR ''.'' \<notin> set (eo_massage_str M s maxlen 0)"
      "length (eo_massage_str M s maxlen 0) \<le> unat maxlen"
  | (dot) stem r where "extension_of (escape_spec s) = CHR ''.'' # r" "CHR ''.'' \<notin> set r"
      "eo_massage_str M s maxlen 0 = stem @ CHR ''.'' # r"
      "Suc (length r) \<le> unat maxlen \<longrightarrow> length (eo_massage_str M s maxlen 0) \<le> unat maxlen"
proof (cases rule: extension_cases [of "escape_spec s"])
  case nodot
  show ?thesis
  proof (cases "unat maxlen < length (escape_spec s)")
    case True
    from massage_nodot [OF True nodot(1)]
    have eq: "eo_massage_str M s maxlen 0 = take (unat maxlen) (escape_spec s)" .
    have "CHR ''.'' \<notin> set (take (unat maxlen) (escape_spec s))"
      using nodot(1) by (meson in_set_takeD)
    with eq nodot(2) show ?thesis using that(1) by simp
  next
    case False
    then have "eo_massage_str M s maxlen 0 = escape_spec s" by (simp add: massage_fits)
    with False nodot show ?thesis using that(1) by simp
  qed
next
  case (dot stem r)
  show ?thesis
  proof (cases "unat maxlen < length (escape_spec s)")
    case True
    let ?t = "gsize_sub (unat maxlen) (Suc (length r))"
    from massage_dot [OF True dot(1) dot(2)]
    have eq: "eo_massage_str M s maxlen 0 = take ?t (stem @ CHR ''.'' # r) @ CHR ''.'' # r" .
    have "length (take ?t (stem @ CHR ''.'' # r)) \<le> ?t" by simp
    then have "length (eo_massage_str M s maxlen 0) \<le> ?t + Suc (length r)"
      unfolding eq by simp
    then have "Suc (length r) \<le> unat maxlen \<longrightarrow> length (eo_massage_str M s maxlen 0) \<le> unat maxlen"
      by (auto simp: gsize_sub_le)
    with eq dot show ?thesis using that(2) by blast
  next
    case False
    then have "eo_massage_str M s maxlen 0 = escape_spec s" by (simp add: massage_fits)
    with dot False show ?thesis using that(2) by simp
  qed
qed

lemma rename_length_dot:
  assumes "CHR ''.'' \<notin> set r"
    and "length (''('' @ printf_d dupn @ '')'') + Suc (length r) \<le> unat M"
  shows "eo_rename M (stem @ CHR ''.'' # r) dupn =
           take (unat M - (length (''('' @ printf_d dupn @ '')'') + Suc (length r))) stem
             @ ''('' @ printf_d dupn @ '')'' @ CHR ''.'' # r"
    and "length (eo_rename M (stem @ CHR ''.'' # r) dupn) \<le> unat M"
proof -
  let ?b = "unat M - (length (''('' @ printf_d dupn @ '')'') + Suc (length r))"
  have b: "gsize_sub (unat M) (length (''('' @ printf_d dupn @ '')'') + Suc (length r)) = ?b"
    using assms(2) by (rule gsize_sub_le)
  have t: "(if ?b \<le> length stem then take ?b stem else stem) = take ?b stem" by simp
  show eq: "eo_rename M (stem @ CHR ''.'' # r) dupn =
           take ?b stem @ ''('' @ printf_d dupn @ '')'' @ CHR ''.'' # r"
    unfolding eo_rename_dot [OF assms(1)] Let_def b t ..
  have "length (take ?b stem) \<le> ?b" by simp
  then have "length (take ?b stem) + (length (''('' @ printf_d dupn @ '')'') + Suc (length r)) \<le> unat M"
    using assms(2) by linarith
  then show "length (eo_rename M (stem @ CHR ''.'' # r) dupn) \<le> unat M"
    unfolding eq by simp
qed

lemma rename_length_nodot:
  assumes "CHR ''.'' \<notin> set gstr"
    and "length (''('' @ printf_d dupn @ '')'') \<le> unat M"
  shows "eo_rename M gstr dupn =
           take (unat M - length (''('' @ printf_d dupn @ '')'')) gstr @ ''('' @ printf_d dupn @ '')''"
    and "length (eo_rename M gstr dupn) \<le> unat M"
proof -
  let ?b = "unat M - length (''('' @ printf_d dupn @ '')'')"
  have b: "gsize_sub (unat M) (length (''('' @ printf_d dupn @ '')'')) = ?b"
    using assms(2) by (rule gsize_sub_le)
  have t: "(if ?b \<le> length gstr then take ?b gstr else gstr) = take ?b gstr" by simp
  show eq: "eo_rename M gstr dupn = take ?b gstr @ ''('' @ printf_d dupn @ '')''"
    unfolding eo_rename_nodot [OF assms(1)] Let_def b t ..
  have "length (take ?b gstr) \<le> ?b" by simp
  then have "length (take ?b gstr) + length (''('' @ printf_d dupn @ '')'') \<le> unat M"
    using assms(2) by linarith
  then show "length (eo_rename M gstr dupn) \<le> unat M"
    unfolding eq by simp
qed

text \<open>
  Claim C1, as amended. With no duplicate number, the massaged name is at most \<open>maxlen\<close>
  bytes long whenever the extension of the escaped name is at most \<open>maxlen\<close> bytes long (in
  particular when the escaped name fits or has no \<open>.\<close>). With a duplicate number, the bound
  that \<open>eo_rename\<close> enforces is \<open>EXPORT_OBJECT_MAXFILELEN\<close>, not \<open>maxlen\<close>: the result is at
  most \<open>EXPORT_OBJECT_MAXFILELEN\<close> bytes long whenever the suffix \<open>(N)\<close> and the extension
  together are, and so at most \<open>maxlen\<close> bytes long when \<open>maxlen\<close> is at least
  \<open>EXPORT_OBJECT_MAXFILELEN\<close>.
\<close>

theorem eo_massage_str_length_bound:
  "(dupn = 0 \<and> length (extension_of (escape_spec in_str)) \<le> unat maxlen \<longrightarrow>
      length (eo_massage_str M in_str maxlen dupn) \<le> unat maxlen) \<and>
   (dupn \<noteq> 0 \<and>
    length (''('' @ printf_d dupn @ '')'') + length (extension_of (escape_spec in_str)) \<le> unat M \<longrightarrow>
      length (eo_massage_str M in_str maxlen dupn) \<le> unat M) \<and>
   (dupn \<noteq> 0 \<and>
    length (''('' @ printf_d dupn @ '')'') + length (extension_of (escape_spec in_str)) \<le> unat M \<and>
    unat M \<le> unat maxlen \<longrightarrow>
      length (eo_massage_str M in_str maxlen dupn) \<le> unat maxlen)"
proof (cases rule: massage_0_shape [of in_str M maxlen])
  case nodot
  have "dupn \<noteq> 0 \<Longrightarrow> length (''('' @ printf_d dupn @ '')'') \<le> unat M \<Longrightarrow>
          length (eo_massage_str M in_str maxlen dupn) \<le> unat M"
    using rename_length_nodot(2) [OF nodot(2)] by (simp add: massage_dup)
  with nodot show ?thesis by auto
next
  case (dot stem r)
  have "dupn \<noteq> 0 \<Longrightarrow> length (''('' @ printf_d dupn @ '')'') + Suc (length r) \<le> unat M \<Longrightarrow>
          length (eo_massage_str M in_str maxlen dupn) \<le> unat M"
    using rename_length_dot(2) [OF dot(2)] dot(3) by (simp add: massage_dup)
  with dot show ?thesis by auto
qed

lemma printf_d_2: "printf_d 2 = ''2''"
  by (simp add: printf_d_def dec_digit_def)

lemma massage_a_txt: "eo_massage_str M ''a.txt'' 2 0 = ''a.txt.txt''"
proof -
  have e: "escape_spec ''a.txt'' = ''a'' @ CHR ''.'' # ''txt''"
    by (simp add: escape_spec_def reject_def)
  have "unat (2 :: gsize) < length (escape_spec ''a.txt'')"
    by (simp add: e)
  from massage_dot [OF this e] show ?thesis
    by (simp add: gsize_sub_def)
qed

lemma massage_name_txt: "eo_massage_str 255 ''name.txt'' 10 2 = ''name(2).txt''"
proof -
  have e: "escape_spec ''name.txt'' = ''name.txt''"
    by (simp add: escape_spec_def reject_def)
  have "eo_massage_str 255 ''name.txt'' 10 0 = ''name'' @ CHR ''.'' # ''txt''"
    by (simp add: massage_fits e)
  then have "eo_massage_str 255 ''name.txt'' 10 2 = eo_rename 255 (''name'' @ CHR ''.'' # ''txt'') 2"
    by (simp add: massage_dup)
  also have "\<dots> = ''name(2).txt''"
    using eo_rename_dot [of "''txt''" 255 "''name''" 2]
    by (simp add: printf_d_2 gsize_sub_def)
  finally show ?thesis .
qed

text \<open>
  Claim C1 as stated fails: an extension longer than \<open>maxlen\<close> makes the subtraction
  \<open>maxlen - ext_str->len\<close> wrap, nothing is cut and the extension is appended once more;
  and a duplicate number is added within \<open>EXPORT_OBJECT_MAXFILELEN\<close>, whatever \<open>maxlen\<close> is.
\<close>

theorem eo_massage_str_length_counterexample:
  "\<not> length (eo_massage_str 255 ''a.txt'' 2 0) \<le> unat (2 :: gsize) \<and>
   \<not> length (eo_massage_str 255 ''name.txt'' 10 2) \<le> unat (10 :: gsize)"
  by (simp add: massage_a_txt massage_name_txt)

theorem eo_massage_str_length_bound_witness:
  "((0 :: int) = 0 \<and> length (extension_of (escape_spec ''averylongname.txt'')) \<le> unat (10 :: gsize)
      \<and> length (eo_massage_str 255 ''averylongname.txt'' 10 0) \<le> unat (10 :: gsize)) \<and>
   ((2 :: int) \<noteq> 0
      \<and> length (''('' @ printf_d 2 @ '')'') + length (extension_of (escape_spec ''name.txt''))
            \<le> unat (255 :: gsize)
      \<and> length (eo_massage_str 255 ''name.txt'' 10 2) \<le> unat (255 :: gsize)) \<and>
   (unat (255 :: gsize) \<le> unat (300 :: gsize)
      \<and> length (eo_massage_str 255 ''name.txt'' 300 2) \<le> unat (300 :: gsize))"
proof -
  have e1: "escape_spec ''averylongname.txt'' = ''averylongname'' @ CHR ''.'' # ''txt''"
    by (simp add: escape_spec_def reject_def)
  have h1: "length (extension_of (escape_spec ''averylongname.txt'')) \<le> unat (10 :: gsize)"
    unfolding e1 by (subst extension_of_dot) simp_all
  have e2: "escape_spec ''name.txt'' = ''name'' @ CHR ''.'' # ''txt''"
    by (simp add: escape_spec_def reject_def)
  have h2: "length (''('' @ printf_d 2 @ '')'') + length (extension_of (escape_spec ''name.txt''))
              \<le> unat (255 :: gsize)"
    unfolding e2 by (subst extension_of_dot) (simp_all add: printf_d_2)
  show ?thesis
    using h1 h2
      eo_massage_str_length_bound [of 0 "''averylongname.txt''" 10 255]
      eo_massage_str_length_bound [of 2 "''name.txt''" 10 255]
      eo_massage_str_length_bound [of 2 "''name.txt''" 300 255]
    by simp
qed

subsection \<open>Names that are already safe\<close>

text \<open>
  Claim C7. A name that holds no rejected byte and is at most \<open>maxlen\<close> bytes long is
  returned unchanged when the duplicate number is 0.
\<close>

theorem eo_massage_str_safe_name:
  "\<forall>c \<in> set in_str. c \<notin> set reject \<Longrightarrow> length in_str \<le> unat maxlen \<Longrightarrow>
   eo_massage_str M in_str maxlen 0 = in_str"
  by (simp add: escape_spec_safe massage_fits)

theorem eo_massage_str_safe_name_witness:
  "set ''index.html'' \<inter> set reject = {} \<and> length ''index.html'' \<le> unat (255 :: gsize) \<and>
   eo_massage_str 255 ''index.html'' 255 0 = ''index.html''"
proof -
  have safe: "\<forall>c \<in> set ''index.html''. c \<notin> set reject"
    by (simp add: reject_def)
  have fits: "length ''index.html'' \<le> unat (255 :: gsize)"
    by simp
  have "set ''index.html'' \<inter> set reject = {}"
    by (simp add: reject_def)
  with fits eo_massage_str_safe_name [OF safe fits, of 255] show ?thesis
    by blast
qed

subsection \<open>Escaping\<close>

lemma reject_set:
  "c \<in> set reject \<longleftrightarrow>
     c \<in> set ''<>:/|?*'' \<or> c = CHR 0x22 \<or> c = CHR 0x5C \<or>
     (1 \<le> (of_char c :: nat) \<and> (of_char c :: nat) \<le> 0x1f)"
proof (cases c)
  case (Char b0 b1 b2 b3 b4 b5 b6 b7)
  show ?thesis
    unfolding Char reject_def
    by (cases b0; cases b1; cases b2; cases b3; cases b4; cases b5; cases b6; cases b7) simp_all
qed

lemma escape_a_lt_b: "escape_spec ''a<b'' = ''a%3cb''"
  by (simp add: escape_spec_def percent_escape_def reject_def hex_digit_def)

lemma escape_file_name:
  "escape_spec [CHR ''f'', CHR ''i'', CHR ''l'', CHR ''e'', CHR 0x01, CHR ''n'', CHR ''a'', CHR ''m'', CHR ''e'']
     = ''file%01name''"
  by (simp add: escape_spec_def percent_escape_def reject_def hex_digit_def)

lemma hex_digit_safe: "hex_digit d \<notin> set reject"
proof -
  have "hex_digit d \<in> set ''0123456789abcdef''"
    unfolding hex_digit_def by (rule nth_mem) simp
  moreover have "\<forall>c \<in> set ''0123456789abcdef''. c \<notin> set reject"
    by (simp add: reject_def)
  ultimately show ?thesis by blast
qed

lemma escape_spec_no_reject: "set (escape_spec s) \<inter> set reject = {}"
proof (induction s)
  case Nil
  show ?case by (simp add: escape_spec_def)
next
  case (Cons c s)
  have pct: "CHR ''%'' \<notin> set reject" by (simp add: reject_def)
  have "set (escape_spec (c # s)) =
          set (if c \<in> set reject then percent_escape c else [c]) \<union> set (escape_spec s)"
    by (simp add: escape_spec_def)
  moreover have "set (if c \<in> set reject then percent_escape c else [c]) \<inter> set reject = {}"
    using pct hex_digit_safe by (simp add: percent_escape_def)
  ultimately show ?case using Cons.IH by blast
qed

lemma massage_general:
  "eo_massage_str M in_str maxlen dupn =
     (let escaped = escape_spec in_str;
          cut = (if unat maxlen < length escaped then
                   (case strrchr escaped (CHR ''.'') of
                      Some ext_str \<Rightarrow>
                        take (gsize_sub (unat maxlen) (length ext_str)) escaped @ ext_str
                    | None \<Rightarrow> take (unat maxlen) escaped)
                 else escaped)
      in if dupn \<noteq> 0 then eo_rename M cut dupn else cut)"
  unfolding eo_massage_str_def eo_escape_loop_spec g_string_truncate_def by simp

lemma massage_escaped_renamed: "eo_massage_str 255 ''a<b.txt'' 100 1 = ''a%3cb(1).txt''"
proof -
  have e: "escape_spec ''a<b.txt'' = ''a%3cb'' @ CHR ''.'' # ''txt''"
    by (simp add: escape_spec_def percent_escape_def reject_def hex_digit_def)
  have p1: "printf_d 1 = ''1''" by (simp add: printf_d_def dec_digit_def)
  have "eo_massage_str 255 ''a<b.txt'' 100 1 = eo_rename 255 (''a%3cb'' @ CHR ''.'' # ''txt'') 1"
    unfolding massage_general [of 255 "''a<b.txt''" 100 1] e by simp
  also have "\<dots> = ''a%3cb(1).txt''"
    using eo_rename_dot [of "''txt''" 255 "''a%3cb''" 1] by (simp add: p1 gsize_sub_def)
  finally show ?thesis .
qed

lemma massage_escaped_cut: "eo_massage_str M ''a<b-long-name.txt'' 10 0 = ''a%3cb-.txt''"
proof -
  have e: "escape_spec ''a<b-long-name.txt'' = ''a%3cb-long-name'' @ CHR ''.'' # ''txt''"
    by (simp add: escape_spec_def percent_escape_def reject_def hex_digit_def)
  have s: "strrchr (''a%3cb-long-name'' @ CHR ''.'' # ''txt'') (CHR ''.'') = Some (CHR ''.'' # ''txt'')"
    by (rule strrchr_append) simp
  show ?thesis
    unfolding massage_general [of M "''a<b-long-name.txt''" 10 0] e Let_def s
    by (simp add: gsize_sub_def)
qed

text \<open>
  Claim C4. The loop of \<open>eo_massage_str\<close> computes the escaping of the specification:
  each rejected byte becomes \<open>%\<close> and two lowercase hexadecimal digits, every other byte is
  copied. The escaping comes first: with no duplicate number the escaped name is returned
  whole when it fits, and it is the escaped name that is cut when it does not (shown here
  for a name with no \<open>.\<close>). The two examples of the specification hold. The rejected bytes
  are \<open>< > : " / \ | ? *\<close> and the bytes from 0x01 to 0x1f. For every input, every
  \<open>maxlen\<close> and every duplicate number, the result is what the cut to \<open>maxlen\<close> (keeping the
  extension) and then \<open>eo_rename\<close> make of the escaped name, and of nothing else; the
  escaped name holds no rejected byte. So a rejected byte is escaped also in a name with a
  duplicate number and in a name with a \<open>.\<close> that is cut.
\<close>

theorem eo_massage_str_escapes:
  "eo_escape_loop [] in_str = escape_spec in_str \<and>
   (length (escape_spec in_str) \<le> unat maxlen \<longrightarrow>
      eo_massage_str M in_str maxlen 0 = escape_spec in_str) \<and>
   (unat maxlen < length (escape_spec in_str) \<and> CHR ''.'' \<notin> set (escape_spec in_str) \<longrightarrow>
      eo_massage_str M in_str maxlen 0 = take (unat maxlen) (escape_spec in_str)) \<and>
   eo_massage_str M ''a<b'' 100 0 = ''a%3cb'' \<and>
   eo_massage_str M [CHR ''f'', CHR ''i'', CHR ''l'', CHR ''e'', CHR 0x01,
                     CHR ''n'', CHR ''a'', CHR ''m'', CHR ''e''] 100 0 = ''file%01name'' \<and>
   (c \<in> set reject \<longleftrightarrow>
      c \<in> set ''<>:/|?*'' \<or> c = CHR 0x22 \<or> c = CHR 0x5C \<or>
      (1 \<le> (of_char c :: nat) \<and> (of_char c :: nat) \<le> 0x1f)) \<and>
   eo_massage_str M in_str maxlen dupn =
     (let escaped = escape_spec in_str;
          cut = (if unat maxlen < length escaped then
                   (case strrchr escaped (CHR ''.'') of
                      Some ext_str \<Rightarrow>
                        take (gsize_sub (unat maxlen) (length ext_str)) escaped @ ext_str
                    | None \<Rightarrow> take (unat maxlen) escaped)
                 else escaped)
      in if dupn \<noteq> 0 then eo_rename M cut dupn else cut) \<and>
   set (escape_spec in_str) \<inter> set reject = {} \<and>
   eo_massage_str 255 ''a<b.txt'' 100 1 = ''a%3cb(1).txt'' \<and>
   eo_massage_str M ''a<b-long-name.txt'' 10 0 = ''a%3cb-.txt''"
proof (intro conjI impI)
  show "eo_escape_loop [] in_str = escape_spec in_str"
    by (simp add: eo_escape_loop_spec)
  show "eo_massage_str M in_str maxlen 0 = escape_spec in_str"
    if "length (escape_spec in_str) \<le> unat maxlen"
    using that by (rule massage_fits)
  show "eo_massage_str M in_str maxlen 0 = take (unat maxlen) (escape_spec in_str)"
    if "unat maxlen < length (escape_spec in_str) \<and> CHR ''.'' \<notin> set (escape_spec in_str)"
    using that massage_nodot by blast
  have "length (escape_spec ''a<b'') \<le> unat (100 :: gsize)"
    unfolding escape_a_lt_b by simp
  from massage_fits [OF this] show "eo_massage_str M ''a<b'' 100 0 = ''a%3cb''"
    unfolding escape_a_lt_b .
  have "length (escape_spec [CHR ''f'', CHR ''i'', CHR ''l'', CHR ''e'', CHR 0x01,
                     CHR ''n'', CHR ''a'', CHR ''m'', CHR ''e'']) \<le> unat (100 :: gsize)"
    unfolding escape_file_name by simp
  from massage_fits [OF this]
  show "eo_massage_str M [CHR ''f'', CHR ''i'', CHR ''l'', CHR ''e'', CHR 0x01,
                     CHR ''n'', CHR ''a'', CHR ''m'', CHR ''e''] 100 0 = ''file%01name''"
    unfolding escape_file_name .
  show "c \<in> set reject \<longleftrightarrow>
      c \<in> set ''<>:/|?*'' \<or> c = CHR 0x22 \<or> c = CHR 0x5C \<or>
      (1 \<le> (of_char c :: nat) \<and> (of_char c :: nat) \<le> 0x1f)"
    by (rule reject_set)
  show "eo_massage_str M in_str maxlen dupn =
     (let escaped = escape_spec in_str;
          cut = (if unat maxlen < length escaped then
                   (case strrchr escaped (CHR ''.'') of
                      Some ext_str \<Rightarrow>
                        take (gsize_sub (unat maxlen) (length ext_str)) escaped @ ext_str
                    | None \<Rightarrow> take (unat maxlen) escaped)
                 else escaped)
      in if dupn \<noteq> 0 then eo_rename M cut dupn else cut)"
    by (rule massage_general)
  show "set (escape_spec in_str) \<inter> set reject = {}"
    by (rule escape_spec_no_reject)
  show "eo_massage_str 255 ''a<b.txt'' 100 1 = ''a%3cb(1).txt''"
    by (rule massage_escaped_renamed)
  show "eo_massage_str M ''a<b-long-name.txt'' 10 0 = ''a%3cb-.txt''"
    by (rule massage_escaped_cut)
qed

theorem eo_massage_str_escapes_witness:
  "length (escape_spec ''a:b/c'') \<le> unat (100 :: gsize) \<and>
   eo_massage_str 255 ''a:b/c'' 100 0 = ''a%3ab%2fc'' \<and>
   unat (4 :: gsize) < length (escape_spec ''a:b/c'') \<and> CHR ''.'' \<notin> set (escape_spec ''a:b/c'') \<and>
   eo_massage_str 255 ''a:b/c'' 4 0 = ''a%3a'' \<and>
   eo_massage_str 255 ''a<b.pdf'' 100 2 = ''a%3cb(2).pdf'' \<and>
   eo_massage_str 255 ''x|y-long-name.pdf'' 10 0 = ''x%7cy-.pdf''"
proof -
  have e: "escape_spec ''a:b/c'' = ''a%3ab%2fc''"
    by (simp add: escape_spec_def percent_escape_def reject_def hex_digit_def)
  have h1: "length (escape_spec ''a:b/c'') \<le> unat (100 :: gsize)"
    unfolding e by simp
  have h2: "unat (4 :: gsize) < length (escape_spec ''a:b/c'') \<and> CHR ''.'' \<notin> set (escape_spec ''a:b/c'')"
    unfolding e by simp
  have r1: "eo_massage_str 255 ''a:b/c'' 100 0 = escape_spec ''a:b/c''"
    by (rule eo_massage_str_escapes [THEN conjunct2, THEN conjunct1, rule_format]) (rule h1)
  have r2: "eo_massage_str 255 ''a:b/c'' 4 0 = take (unat (4 :: gsize)) (escape_spec ''a:b/c'')"
    by (rule eo_massage_str_escapes [THEN conjunct2, THEN conjunct2, THEN conjunct1, rule_format])
       (rule h2)
  from r2 have r2': "eo_massage_str 255 ''a:b/c'' 4 0 = ''a%3a''"
    unfolding e by simp
  note general1 = eo_massage_str_escapes
    [where M = 255 and in_str = "''a<b.pdf''" and maxlen = 100 and dupn = 2,
     THEN conjunct2, THEN conjunct2, THEN conjunct2, THEN conjunct2, THEN conjunct2,
     THEN conjunct2, THEN conjunct1]
  note general2 = eo_massage_str_escapes
    [where M = 255 and in_str = "''x|y-long-name.pdf''" and maxlen = 10 and dupn = 0,
     THEN conjunct2, THEN conjunct2, THEN conjunct2, THEN conjunct2, THEN conjunct2,
     THEN conjunct2, THEN conjunct1]
  have e3: "escape_spec ''a<b.pdf'' = ''a%3cb'' @ CHR ''.'' # ''pdf''"
    by (simp add: escape_spec_def percent_escape_def reject_def hex_digit_def)
  have "eo_massage_str 255 ''a<b.pdf'' 100 2 = eo_rename 255 (''a%3cb'' @ CHR ''.'' # ''pdf'') 2"
    unfolding general1 e3 by simp
  also have "\<dots> = ''a%3cb(2).pdf''"
    using eo_rename_dot [of "''pdf''" 255 "''a%3cb''" 2] by (simp add: printf_d_2 gsize_sub_def)
  finally have r3: "eo_massage_str 255 ''a<b.pdf'' 100 2 = ''a%3cb(2).pdf''" .
  have e4: "escape_spec ''x|y-long-name.pdf'' = ''x%7cy-long-name'' @ CHR ''.'' # ''pdf''"
    by (simp add: escape_spec_def percent_escape_def reject_def hex_digit_def)
  have s4: "strrchr (''x%7cy-long-name'' @ CHR ''.'' # ''pdf'') (CHR ''.'') = Some (CHR ''.'' # ''pdf'')"
    by (rule strrchr_append) simp
  have r4: "eo_massage_str 255 ''x|y-long-name.pdf'' 10 0 = ''x%7cy-.pdf''"
    unfolding general2 e4 Let_def s4 by (simp add: gsize_sub_def)
  from h1 h2 r1 r2' r3 r4 show ?thesis
    unfolding e by blast
qed

subsection \<open>Truncation\<close>

lemma printf_d_1: "printf_d 1 = ''1''"
  by (simp add: printf_d_def dec_digit_def)

lemma massage_averylongname_dup:
  "eo_massage_str 255 ''averylongname.txt'' 10 1 = ''averyl(1).txt''"
proof -
  have e: "escape_spec ''averylongname.txt'' = ''averylongname'' @ CHR ''.'' # ''txt''"
    by (simp add: escape_spec_def reject_def)
  have "unat (10 :: gsize) < length (escape_spec ''averylongname.txt'')"
    unfolding e by simp
  from massage_dot [OF this e, of 255]
  have "eo_massage_str 255 ''averylongname.txt'' 10 0 = ''averyl'' @ CHR ''.'' # ''txt''"
    by (simp add: gsize_sub_def)
  then have "eo_massage_str 255 ''averylongname.txt'' 10 1
               = eo_rename 255 (''averyl'' @ CHR ''.'' # ''txt'') 1"
    by (simp add: massage_dup)
  also have "\<dots> = ''averyl(1).txt''"
    using eo_rename_dot [of "''txt''" 255 "''averyl''" 1]
    by (simp add: printf_d_1 gsize_sub_def)
  finally show ?thesis .
qed

text \<open>
  Claim C3 as stated fails for an extension longer than \<open>maxlen\<close> (no stem and extension can
  add up to \<open>maxlen\<close> then, and the code returns the whole name followed by the extension
  once more), and for a nonzero duplicate number (the suffix is added after the cut).
\<close>

theorem eo_massage_str_truncation_counterexample:
  "unat (2 :: gsize) < length (escape_spec ''a.txt'') \<and>
   escape_spec ''a.txt'' = ''a'' @ ''.txt'' \<and> CHR ''.'' \<notin> set ''txt'' \<and>
   eo_massage_str 255 ''a.txt'' 2 0 = ''a.txt.txt'' \<and>
   length (eo_massage_str 255 ''a.txt'' 2 0) \<noteq> unat (2 :: gsize) \<and>
   unat (10 :: gsize) < length (escape_spec ''averylongname.txt'') \<and>
   eo_massage_str 255 ''averylongname.txt'' 10 1 = ''averyl(1).txt'' \<and>
   length (eo_massage_str 255 ''averylongname.txt'' 10 1) \<noteq> unat (10 :: gsize)"
proof -
  have "escape_spec ''a.txt'' = ''a.txt''"
    by (simp add: escape_spec_def reject_def)
  moreover have "escape_spec ''averylongname.txt'' = ''averylongname.txt''"
    by (simp add: escape_spec_def reject_def)
  ultimately show ?thesis
    by (simp add: massage_a_txt massage_averylongname_dup)
qed

text \<open>
  Claim C3, as amended. With no duplicate number, when the escaped name is longer than
  \<open>maxlen\<close>: if it has a \<open>.\<close> and the extension (from the last \<open>.\<close> on) is at most \<open>maxlen\<close>
  bytes long, the result is the stem cut to \<open>maxlen\<close> minus the length of the extension,
  followed by the extension, \<open>maxlen\<close> bytes in all; if it has no \<open>.\<close>, the result is its
  first \<open>maxlen\<close> bytes.
\<close>

theorem eo_massage_str_truncation:
  "unat maxlen < length (escape_spec in_str) \<Longrightarrow>
   (\<forall>stem r. escape_spec in_str = stem @ CHR ''.'' # r \<and> CHR ''.'' \<notin> set r \<and>
             length (CHR ''.'' # r) \<le> unat maxlen \<longrightarrow>
        eo_massage_str M in_str maxlen 0 =
          take (unat maxlen - length (CHR ''.'' # r)) stem @ CHR ''.'' # r \<and>
        length (take (unat maxlen - length (CHR ''.'' # r)) stem) + length (CHR ''.'' # r)
          = unat maxlen) \<and>
   (CHR ''.'' \<notin> set (escape_spec in_str) \<longrightarrow>
        eo_massage_str M in_str maxlen 0 = take (unat maxlen) (escape_spec in_str) \<and>
        length (eo_massage_str M in_str maxlen 0) = unat maxlen)"
proof (intro conjI allI impI)
  fix stem r
  assume long: "unat maxlen < length (escape_spec in_str)"
    and "escape_spec in_str = stem @ CHR ''.'' # r \<and> CHR ''.'' \<notin> set r \<and>
         length (CHR ''.'' # r) \<le> unat maxlen"
  then have e: "escape_spec in_str = stem @ CHR ''.'' # r" and r: "CHR ''.'' \<notin> set r"
    and le: "Suc (length r) \<le> unat maxlen" by simp_all
  let ?t = "unat maxlen - Suc (length r)"
  from long e have "unat maxlen < length stem + Suc (length r)" by simp
  with le have t: "?t < length stem" by linarith
  then have "take ?t (stem @ CHR ''.'' # r) = take ?t stem" by simp
  with massage_dot [OF long e r, of M] le
  show "eo_massage_str M in_str maxlen 0 =
          take (unat maxlen - length (CHR ''.'' # r)) stem @ CHR ''.'' # r"
    by (simp add: gsize_sub_le)
  from t le show "length (take (unat maxlen - length (CHR ''.'' # r)) stem) + length (CHR ''.'' # r)
          = unat maxlen"
    by simp
next
  assume long: "unat maxlen < length (escape_spec in_str)"
    and nodot: "CHR ''.'' \<notin> set (escape_spec in_str)"
  from massage_nodot [OF long nodot]
  show eq: "eo_massage_str M in_str maxlen 0 = take (unat maxlen) (escape_spec in_str)" .
  from long show "length (eo_massage_str M in_str maxlen 0) = unat maxlen"
    unfolding eq by simp
qed

theorem eo_massage_str_truncation_witness:
  "unat (10 :: gsize) < length (escape_spec ''averylongname.txt'') \<and>
   escape_spec ''averylongname.txt'' = ''averylongname'' @ CHR ''.'' # ''txt'' \<and>
   CHR ''.'' \<notin> set ''txt'' \<and> length (CHR ''.'' # ''txt'') \<le> unat (10 :: gsize) \<and>
   eo_massage_str 255 ''averylongname.txt'' 10 0 = ''averyl.txt'' \<and>
   unat (5 :: gsize) < length (escape_spec ''nodotnamehere'') \<and>
   CHR ''.'' \<notin> set (escape_spec ''nodotnamehere'') \<and>
   eo_massage_str 255 ''nodotnamehere'' 5 0 = ''nodot''"
proof -
  have e1: "escape_spec ''averylongname.txt'' = ''averylongname'' @ CHR ''.'' # ''txt''"
    by (simp add: escape_spec_def reject_def)
  have l1: "unat (10 :: gsize) < length (escape_spec ''averylongname.txt'')"
    by (simp add: e1)
  have e2: "escape_spec ''nodotnamehere'' = ''nodotnamehere''"
    by (simp add: escape_spec_def reject_def)
  have l2: "unat (5 :: gsize) < length (escape_spec ''nodotnamehere'')"
    by (simp add: e2)
  have d2: "CHR ''.'' \<notin> set (escape_spec ''nodotnamehere'')"
    by (simp add: e2)
  have "eo_massage_str 255 ''averylongname.txt'' 10 0 =
          take (unat (10 :: gsize) - length (CHR ''.'' # ''txt'')) ''averylongname'' @ CHR ''.'' # ''txt''"
    by (rule eo_massage_str_truncation [OF l1, THEN conjunct1, rule_format, THEN conjunct1])
       (simp add: e1)
  then have r1: "eo_massage_str 255 ''averylongname.txt'' 10 0 = ''averyl.txt''"
    by simp
  have "eo_massage_str 255 ''nodotnamehere'' 5 0 = take (unat (5 :: gsize)) (escape_spec ''nodotnamehere'')"
    by (rule eo_massage_str_truncation [OF l2, THEN conjunct2, rule_format, THEN conjunct1])
       (rule d2)
  then have r2: "eo_massage_str 255 ''nodotnamehere'' 5 0 = ''nodot''"
    by (simp add: e2)
  from e1 have e1': "escape_spec ''averylongname.txt'' = ''averylongname.txt''" by simp
  show ?thesis
    unfolding r1 r2 e1' e2 by simp
qed

subsection \<open>Duplicate numbers\<close>

lemma take_if: "(if b \<le> length xs then take b xs else xs) = take b xs"
  by simp

text \<open>
  Claim C2 as stated fails on its own example: the suffix is inserted before the extension,
  but the result is 11 bytes long, more than the \<open>maxlen\<close> of 10.
\<close>

theorem eo_massage_str_duplicate_counterexample:
  "eo_massage_str 255 ''name.txt'' 10 2 = ''name(2).txt'' \<and>
   \<not> length (eo_massage_str 255 ''name.txt'' 10 2) \<le> unat (10 :: gsize)"
  by (simp add: massage_name_txt)

text \<open>
  Claim C2, as amended. For a nonzero duplicate number \<open>N\<close>, the result is a prefix of the
  stem of the name after step 2, then \<open>(N)\<close>, then the extension of that name when it has a
  \<open>.\<close>; it is a prefix of that name, then \<open>(N)\<close>, when it has none. The length respected is
  \<open>EXPORT_OBJECT_MAXFILELEN\<close> (whenever suffix and extension together fit in it), not
  \<open>maxlen\<close>: for \<open>name.txt\<close>, 10 and 2 the result is \<open>name(2).txt\<close>.
\<close>

theorem eo_massage_str_duplicate:
  "dupn \<noteq> 0 \<Longrightarrow>
   (\<forall>stem r. eo_massage_str M in_str maxlen 0 = stem @ CHR ''.'' # r \<and> CHR ''.'' \<notin> set r \<longrightarrow>
      (\<exists>n. eo_massage_str M in_str maxlen dupn
              = take n stem @ ''('' @ printf_d dupn @ '')'' @ CHR ''.'' # r) \<and>
      (length (''('' @ printf_d dupn @ '')'') + length (CHR ''.'' # r) \<le> unat M \<longrightarrow>
         length (eo_massage_str M in_str maxlen dupn) \<le> unat M)) \<and>
   (CHR ''.'' \<notin> set (eo_massage_str M in_str maxlen 0) \<longrightarrow>
      (\<exists>n. eo_massage_str M in_str maxlen dupn
              = take n (eo_massage_str M in_str maxlen 0) @ ''('' @ printf_d dupn @ '')'') \<and>
      (length (''('' @ printf_d dupn @ '')'') \<le> unat M \<longrightarrow>
         length (eo_massage_str M in_str maxlen dupn) \<le> unat M)) \<and>
   (11 \<le> unat M \<longrightarrow> eo_massage_str M ''name.txt'' 10 2 = ''name(2).txt'')"
proof (intro conjI allI impI)
  fix stem r
  assume d: "dupn \<noteq> 0"
    and "eo_massage_str M in_str maxlen 0 = stem @ CHR ''.'' # r \<and> CHR ''.'' \<notin> set r"
  then have out: "eo_massage_str M in_str maxlen 0 = stem @ CHR ''.'' # r"
    and r: "CHR ''.'' \<notin> set r" by simp_all
  have eq: "eo_massage_str M in_str maxlen dupn = eo_rename M (stem @ CHR ''.'' # r) dupn"
    using d out by (simp add: massage_dup)
  show "\<exists>n. eo_massage_str M in_str maxlen dupn
              = take n stem @ ''('' @ printf_d dupn @ '')'' @ CHR ''.'' # r"
    unfolding eq eo_rename_dot [OF r] Let_def take_if by (rule exI) (rule refl)
  show "length (eo_massage_str M in_str maxlen dupn) \<le> unat M"
    if "length (''('' @ printf_d dupn @ '')'') + length (CHR ''.'' # r) \<le> unat M"
    unfolding eq using that rename_length_dot(2) [OF r] by simp
next
  assume d: "dupn \<noteq> 0" and nodot: "CHR ''.'' \<notin> set (eo_massage_str M in_str maxlen 0)"
  have eq: "eo_massage_str M in_str maxlen dupn = eo_rename M (eo_massage_str M in_str maxlen 0) dupn"
    using d by (rule massage_dup)
  show "\<exists>n. eo_massage_str M in_str maxlen dupn
              = take n (eo_massage_str M in_str maxlen 0) @ ''('' @ printf_d dupn @ '')''"
    by (subst eq, unfold eo_rename_nodot [OF nodot] Let_def take_if) (rule exI, rule refl)
  show "length (eo_massage_str M in_str maxlen dupn) \<le> unat M"
    if "length (''('' @ printf_d dupn @ '')'') \<le> unat M"
    by (subst eq) (rule rename_length_nodot(2) [OF nodot that])
next
  assume M: "11 \<le> unat M"
  have e: "escape_spec ''name.txt'' = ''name.txt''"
    by (simp add: escape_spec_def reject_def)
  have "eo_massage_str M ''name.txt'' 10 0 = ''name'' @ CHR ''.'' # ''txt''"
    by (simp add: massage_fits e)
  then have "eo_massage_str M ''name.txt'' 10 2 = eo_rename M (''name'' @ CHR ''.'' # ''txt'') 2"
    by (simp add: massage_dup)
  also have "\<dots> = take (unat M - (length (''('' @ printf_d 2 @ '')'') + Suc (length ''txt''))) ''name''
                     @ ''('' @ printf_d 2 @ '')'' @ CHR ''.'' # ''txt''"
    by (rule rename_length_dot(1)) (use M in \<open>simp_all add: printf_d_2\<close>)
  also have "\<dots> = ''name(2).txt''"
    using M by (simp add: printf_d_2)
  finally show "eo_massage_str M ''name.txt'' 10 2 = ''name(2).txt''" .
qed

theorem eo_massage_str_duplicate_witness:
  "(2 :: int) \<noteq> 0 \<and>
   eo_massage_str 255 ''report.pdf'' 255 0 = ''report'' @ CHR ''.'' # ''pdf'' \<and>
   CHR ''.'' \<notin> set ''pdf'' \<and>
   length (''('' @ printf_d 2 @ '')'') + length (CHR ''.'' # ''pdf'') \<le> unat (255 :: gsize) \<and>
   length (eo_massage_str 255 ''report.pdf'' 255 2) \<le> unat (255 :: gsize) \<and>
   CHR ''.'' \<notin> set (eo_massage_str 255 ''README'' 255 0) \<and>
   length (''('' @ printf_d 2 @ '')'') \<le> unat (255 :: gsize) \<and>
   length (eo_massage_str 255 ''README'' 255 2) \<le> unat (255 :: gsize) \<and>
   11 \<le> unat (255 :: gsize) \<and> eo_massage_str 255 ''name.txt'' 10 2 = ''name(2).txt''"
proof -
  have d: "(2 :: int) \<noteq> 0" by simp
  have e1: "escape_spec ''report.pdf'' = ''report.pdf''"
    by (simp add: escape_spec_def reject_def)
  have o1: "eo_massage_str 255 ''report.pdf'' 255 0 = ''report'' @ CHR ''.'' # ''pdf''"
    by (simp add: massage_fits e1)
  have k1: "length (''('' @ printf_d 2 @ '')'') + length (CHR ''.'' # ''pdf'') \<le> unat (255 :: gsize)"
    by (simp add: printf_d_2)
  have r1: "length (eo_massage_str 255 ''report.pdf'' 255 2) \<le> unat (255 :: gsize)"
    by (rule eo_massage_str_duplicate [OF d, THEN conjunct1, rule_format, THEN conjunct2, rule_format,
          of 255 "''report.pdf''" 255 "''report''" "''pdf''"])
       (use o1 k1 in simp_all)
  have e2: "escape_spec ''README'' = ''README''"
    by (simp add: escape_spec_def reject_def)
  have o2: "CHR ''.'' \<notin> set (eo_massage_str 255 ''README'' 255 0)"
    by (simp add: massage_fits e2)
  have k2: "length (''('' @ printf_d 2 @ '')'') \<le> unat (255 :: gsize)"
    by (simp add: printf_d_2)
  have r2: "length (eo_massage_str 255 ''README'' 255 2) \<le> unat (255 :: gsize)"
    by (rule eo_massage_str_duplicate [OF d, THEN conjunct2, THEN conjunct1, rule_format,
          THEN conjunct2, rule_format]) (rule o2, rule k2)
  have m: "11 \<le> unat (255 :: gsize)" by simp
  have r3: "eo_massage_str 255 ''name.txt'' 10 2 = ''name(2).txt''"
    by (rule eo_massage_str_duplicate [OF d, THEN conjunct2, THEN conjunct2, rule_format]) (rule m)
  from d o1 k1 r1 o2 k2 r2 m r3 show ?thesis
    by (intro conjI) simp_all
qed

section \<open>Properties of the registry\<close>

subsection \<open>The comparison of filter names\<close>

lemma of_char_int_pos: "c \<noteq> CHR 0x00 \<Longrightarrow> 0 < (of_char c :: int)"
proof -
  assume "c \<noteq> CHR 0x00"
  then have "(of_char c :: nat) \<noteq> of_char (CHR 0x00)"
    by (simp only: of_char_eq_iff not_False_eq_True)
  then have "0 < (of_char c :: nat)" by simp
  then have "0 < (of_nat (of_char c) :: int)" by simp
  then show ?thesis by (simp only: of_nat_of_char)
qed

lemma of_char_int_nonneg: "0 \<le> (of_char c :: int)"
proof -
  have "0 \<le> (of_nat (of_char c) :: int)" by simp
  then show ?thesis by (simp only: of_nat_of_char)
qed

lemma strcasecmp_le_iff:
  "g_ascii_strcasecmp s1 s2 \<le> 0 \<longleftrightarrow> casefold_key s1 \<le> casefold_key s2"
proof (induction s1 s2 rule: g_ascii_strcasecmp.induct)
  case (1 c1 s1 c2 s2)
  show ?case
  proof (cases "c1 \<noteq> CHR 0x00 \<and> c2 \<noteq> CHR 0x00")
    case True
    with 1 show ?thesis by (auto simp: casefold_key_def)
  next
    case False
    show ?thesis
    proof (cases "c1 = CHR 0x00")
      case True
      then have "g_ascii_strcasecmp (c1 # s1) (c2 # s2) = - of_char c2" by simp
      with True of_char_int_nonneg [of c2] show ?thesis by (simp add: casefold_key_def)
    next
      case c1: False
      with False have c2: "c2 = CHR 0x00" by simp
      with c1 of_char_int_pos [OF c1] show ?thesis by (simp add: casefold_key_def)
    qed
  qed
next
  case (2 c2 s2)
  from of_char_int_nonneg [of c2] show ?case by (simp add: casefold_key_def)
next
  case (3 c1 s1)
  show ?case
  proof (cases "c1 = CHR 0x00")
    case True
    then show ?thesis by (simp add: casefold_key_def)
  next
    case False
    with of_char_int_pos [OF False] show ?thesis by (simp add: casefold_key_def)
  qed
next
  case 4
  show ?case by (simp add: casefold_key_def)
qed

lemma strcasecmp_gt_iff:
  "0 < g_ascii_strcasecmp s1 s2 \<longleftrightarrow> casefold_key s2 < casefold_key s1"
  using strcasecmp_le_iff [of s1 s2] by auto

subsection \<open>Insertion into the sorted list\<close>

lemma table_le_trans: "table_le pfn heap a b \<Longrightarrow> table_le pfn heap b c \<Longrightarrow> table_le pfn heap a c"
  unfolding table_le_def strcasecmp_le_iff by (rule order_trans)

lemma table_le_total: "\<not> table_le pfn heap a b \<Longrightarrow> table_le pfn heap b a"
  unfolding table_le_def strcasecmp_le_iff by simp

lemma compare_valid:
  "a < length heap \<Longrightarrow> b < length heap \<Longrightarrow>
   insert_sorted_by_table_name pfn heap a b =
     Inr (g_ascii_strcasecmp (pfn (proto_id (heap ! a))) (pfn (proto_id (heap ! b))))"
  by (simp add: insert_sorted_by_table_name_def deref_def)

lemma insert_sorted_mset:
  "g_slist_insert_sorted l d func = Inr l' \<Longrightarrow> mset l' = add_mset d (mset l)"
proof (induction l arbitrary: l')
  case Nil
  then show ?case by auto
next
  case (Cons x l)
  then show ?case by (auto split: sum.splits if_splits)
qed

lemma insert_sorted_valid:
  assumes "d < length heap" and "\<forall>x \<in> set l. x < length heap"
  shows "\<exists>l'. g_slist_insert_sorted l d (insert_sorted_by_table_name pfn heap) = Inr l' \<and>
              (sorted_wrt (table_le pfn heap) l \<longrightarrow> sorted_wrt (table_le pfn heap) l')"
  using assms(2)
proof (induction l)
  case Nil
  show ?case by simp
next
  case (Cons x l)
  from Cons.prems have x: "x < length heap" and l: "\<forall>y \<in> set l. y < length heap" by simp_all
  from Cons.IH [OF l] obtain l' where
    l': "g_slist_insert_sorted l d (insert_sorted_by_table_name pfn heap) = Inr l'"
    and sorted: "sorted_wrt (table_le pfn heap) l \<longrightarrow> sorted_wrt (table_le pfn heap) l'"
    by blast
  let ?c = "g_ascii_strcasecmp (pfn (proto_id (heap ! d))) (pfn (proto_id (heap ! x)))"
  have cmp: "insert_sorted_by_table_name pfn heap d x = Inr ?c"
    using assms(1) x by (rule compare_valid)
  show ?case
  proof (cases "0 < ?c")
    case True
    then have res: "g_slist_insert_sorted (x # l) d (insert_sorted_by_table_name pfn heap) = Inr (x # l')"
      by (simp add: cmp l')
    from True have "\<not> table_le pfn heap d x" by (simp add: table_le_def)
    then have xd: "table_le pfn heap x d" by (rule table_le_total)
    have "set l' = insert d (set l)"
      using insert_sorted_mset [OF l'] by (metis set_mset_add_mset_insert set_mset_mset)
    with xd sorted have "sorted_wrt (table_le pfn heap) (x # l) \<longrightarrow>
                         sorted_wrt (table_le pfn heap) (x # l')"
      by auto
    with res show ?thesis by blast
  next
    case False
    then have res: "g_slist_insert_sorted (x # l) d (insert_sorted_by_table_name pfn heap)
                      = Inr (d # x # l)"
      by (simp add: cmp)
    from False have dx: "table_le pfn heap d x" by (simp add: table_le_def)
    have "sorted_wrt (table_le pfn heap) (d # x # l)" if s: "sorted_wrt (table_le pfn heap) (x # l)"
    proof -
      have "table_le pfn heap d y" if "y \<in> set l" for y
        using s that dx table_le_trans by (metis sorted_wrt.simps(2))
      with s dx show ?thesis by auto
    qed
    with res show ?thesis by blast
  qed
qed

subsection \<open>Registration\<close>

lemma register_result:
  assumes "register_export_object pfn rtap s p f r = Inr (token, s')"
  shows "f \<noteq> None" and "token = rtap (pfn p @ ''_eo'')"
    and "eo_heap s' = eo_heap s @ [new_table pfn (p, f, r)]"
    and "mset (registered_eo_tables s') = add_mset (length (eo_heap s)) (mset (registered_eo_tables s))"
proof -
  from assms show f: "f \<noteq> None"
    by (auto simp: register_export_object_def split: if_splits)
  let ?heap = "eo_heap s @ [new_table pfn (p, f, r)]"
  from assms f obtain l' where
    l': "g_slist_insert_sorted (registered_eo_tables s) (length (eo_heap s))
           (insert_sorted_by_table_name pfn ?heap) = Inr l'"
    and tok: "token = rtap (tap_listen_str (?heap ! length (eo_heap s)))"
    and s': "s' = \<lparr>eo_heap = ?heap, registered_eo_tables = l'\<rparr>"
    by (auto simp: register_export_object_def new_table_def Let_def split: sum.splits)
  from tok show "token = rtap (pfn p @ ''_eo'')" by (simp add: new_table_def)
  from s' show "eo_heap s' = ?heap" by simp
  from insert_sorted_mset [OF l'] s'
  show "mset (registered_eo_tables s') = add_mset (length (eo_heap s)) (mset (registered_eo_tables s))"
    by simp
qed

lemma table_le_append:
  "a < length heap \<Longrightarrow> b < length heap \<Longrightarrow> table_le pfn (heap @ tail) a b = table_le pfn heap a b"
  by (simp add: table_le_def nth_append)

lemma sorted_append_heap:
  assumes "\<forall>p \<in> set l. p < length heap"
  shows "sorted_wrt (table_le pfn (heap @ tail)) l = sorted_wrt (table_le pfn heap) l"
proof
  assume "sorted_wrt (table_le pfn (heap @ tail)) l"
  then show "sorted_wrt (table_le pfn heap) l"
    by (rule sorted_wrt_mono_rel [rotated]) (use assms in \<open>simp add: table_le_append\<close>)
next
  assume "sorted_wrt (table_le pfn heap) l"
  then show "sorted_wrt (table_le pfn (heap @ tail)) l"
    by (rule sorted_wrt_mono_rel [rotated]) (use assms in \<open>simp add: table_le_append\<close>)
qed

lemma register_valid:
  assumes v: "eo_valid s" and f: "f \<noteq> None"
  shows "\<exists>s'. register_export_object pfn rtap s p f r = Inr (rtap (pfn p @ ''_eo''), s') \<and>
              eo_valid s' \<and>
              (sorted_wrt (table_le pfn (eo_heap s)) (registered_eo_tables s) \<longrightarrow>
               sorted_wrt (table_le pfn (eo_heap s')) (registered_eo_tables s'))"
proof -
  let ?new = "new_table pfn (p, f, r)"
  let ?heap = "eo_heap s @ [?new]"
  let ?l = "registered_eo_tables s"
  have d: "length (eo_heap s) < length ?heap" by simp
  have l: "\<forall>x \<in> set ?l. x < length ?heap"
    using v by (auto simp: eo_valid_def)
  from insert_sorted_valid [OF d l, of pfn] obtain l' where
    l': "g_slist_insert_sorted ?l (length (eo_heap s)) (insert_sorted_by_table_name pfn ?heap) = Inr l'"
    and sorted: "sorted_wrt (table_le pfn ?heap) ?l \<longrightarrow> sorted_wrt (table_le pfn ?heap) l'"
    by blast
  let ?s' = "\<lparr>eo_heap = ?heap, registered_eo_tables = l'\<rparr>"
  have "register_export_object pfn rtap s p f r = Inr (rtap (pfn p @ ''_eo''), ?s')"
    using f l' by (simp add: register_export_object_def new_table_def Let_def)
  moreover have "eo_valid ?s'"
  proof -
    have "set l' = insert (length (eo_heap s)) (set ?l)"
      using insert_sorted_mset [OF l'] by (metis set_mset_add_mset_insert set_mset_mset)
    with l show ?thesis by (auto simp: eo_valid_def)
  qed
  moreover have "sorted_wrt (table_le pfn (eo_heap s)) ?l \<longrightarrow>
                 sorted_wrt (table_le pfn (eo_heap ?s')) (registered_eo_tables ?s')"
    using sorted sorted_append_heap [of ?l "eo_heap s" pfn "[?new]"] v
    by (simp add: eo_valid_def)
  ultimately show ?thesis by blast
qed

lemma mset_upt_Cons: "mset [a..<a + Suc n] = add_mset a (mset [Suc a..<Suc a + n])"
proof -
  have "a < a + Suc n" by simp
  then have "[a..<a + Suc n] = a # [Suc a..<a + Suc n]" by (rule upt_conv_Cons)
  also have "a + Suc n = Suc a + n" by simp
  finally have "[a..<a + Suc n] = a # [Suc a..<Suc a + n]" by simp
  then show ?thesis by (simp only: mset.simps)
qed

lemma register_all_frame:
  "register_all pfn rtap s calls = Inr s' \<Longrightarrow>
   eo_heap s' = eo_heap s @ map (new_table pfn) calls \<and>
   mset (registered_eo_tables s') =
     mset (registered_eo_tables s) + mset [length (eo_heap s)..<length (eo_heap s) + length calls]"
proof (induction calls arbitrary: s)
  case Nil
  then show ?case by simp
next
  case (Cons c calls)
  obtain p f r where c: "c = (p, f, r)" by (cases c) auto
  from Cons.prems c obtain token s1 where
    one: "register_export_object pfn rtap s p f r = Inr (token, s1)"
    and rest: "register_all pfn rtap s1 calls = Inr s'"
    by (auto split: sum.splits)
  note h = register_result(3) [OF one] and m = register_result(4) [OF one]
  let ?n = "length (eo_heap s)"
  have len1: "length (eo_heap s1) = Suc ?n" using h by simp
  from Cons.IH [OF rest] have heap: "eo_heap s' = eo_heap s1 @ map (new_table pfn) calls"
    and A: "mset (registered_eo_tables s') =
              mset (registered_eo_tables s1) + mset [Suc ?n..<Suc ?n + length calls]"
    unfolding len1 by blast+
  have B: "mset [?n..<?n + length (c # calls)] = add_mset ?n (mset [Suc ?n..<Suc ?n + length calls])"
    unfolding length_Cons by (rule mset_upt_Cons)
  have "mset (registered_eo_tables s') =
          mset (registered_eo_tables s) + mset [?n..<?n + length (c # calls)]"
    unfolding A B m by simp
  moreover have "eo_heap s' = eo_heap s @ map (new_table pfn) (c # calls)"
    unfolding heap h c by simp
  ultimately show ?case by blast
qed

lemma register_all_invariant:
  "register_all pfn rtap s calls = Inr s' \<Longrightarrow> eo_valid s \<Longrightarrow>
   sorted_wrt (table_le pfn (eo_heap s)) (registered_eo_tables s) \<Longrightarrow>
   eo_valid s' \<and> sorted_wrt (table_le pfn (eo_heap s')) (registered_eo_tables s')"
proof (induction calls arbitrary: s)
  case Nil
  then show ?case by simp
next
  case (Cons c calls)
  obtain p f r where c: "c = (p, f, r)" by (cases c) auto
  from Cons.prems(1) c obtain token s1 where
    one: "register_export_object pfn rtap s p f r = Inr (token, s1)"
    and rest: "register_all pfn rtap s1 calls = Inr s'"
    by (auto split: sum.splits)
  from register_valid [OF Cons.prems(2) register_result(1) [OF one], of pfn rtap p r] one Cons.prems(3)
  have "eo_valid s1" and "sorted_wrt (table_le pfn (eo_heap s1)) (registered_eo_tables s1)"
    by auto
  with Cons.IH [OF rest] show ?case by blast
qed

lemma eo_init_valid:
  "eo_valid eo_init" "sorted_wrt (table_le pfn (eo_heap eo_init)) (registered_eo_tables eo_init)"
  by (simp_all add: eo_valid_def eo_init_def)

lemma foreach_foldl:
  "g_slist_foreach l func user_data w = foldl (\<lambda>w x. func x user_data w) w l"
  by (induction l arbitrary: w) simp_all

lemma foreach_log:
  "g_slist_foreach l (\<lambda>x u visited. visited @ [(x, u)]) user_data w = w @ map (\<lambda>x. (x, user_data)) l"
  by (induction l arbitrary: w) simp_all

lemma sorted_names:
  "sorted_wrt (\<lambda>a b. g_ascii_strcasecmp a b \<le> 0) (table_names pfn s) =
   sorted_wrt (table_le pfn (eo_heap s)) (registered_eo_tables s)"
  by (simp add: table_names_def sorted_wrt_map table_le_def [abs_def])

lemma registered_state:
  assumes "register_all pfn rtap eo_init calls = Inr s"
  shows "eo_valid s" and "eo_heap s = map (new_table pfn) calls"
    and "set (registered_eo_tables s) = {..<length calls}"
proof -
  from register_all_invariant [OF assms eo_init_valid] show "eo_valid s" by simp
  from register_all_frame [OF assms] show "eo_heap s = map (new_table pfn) calls"
    by (simp add: eo_init_def)
  from register_all_frame [OF assms]
  have "mset (registered_eo_tables s) = mset [0..<length calls]"
    by (simp add: eo_init_def)
  then have "set (registered_eo_tables s) = set [0..<length calls]"
    by (metis set_mset_mset)
  then show "set (registered_eo_tables s) = {..<length calls}"
    by (simp add: lessThan_atLeast0)
qed

lemma demo_registered:
  "register_all demo_filter_name demo_register_tap eo_init demo_calls = Inr demo_state"
  by code_simp

lemma demo_registered_more:
  "register_all demo_filter_name demo_register_tap demo_state [(4, Some 3, None)] =
     Inr \<lparr>eo_heap = eo_heap demo_state @
             [\<lparr>proto_id = 4, tap_listen_str = ''dicom_eo'', eo_func = Some 3, reset_cb = None\<rparr>],
          registered_eo_tables = [3, 2, 1, 0]\<rparr>"
  by code_simp

text \<open>
  Claim C5. After any sequence of calls of \<open>register_export_object\<close> that return, starting
  from the empty list, the filter names of the list are in ascending order of
  \<open>g_ascii_strcasecmp\<close>; the list holds the tables of the calls, each once; and
  \<open>eo_iterate_tables\<close> applies the visitor to each element of the list once, in the order of
  the list, each time with the \<open>user_data\<close> given (shown for every visitor, and for the
  visitor that records its two arguments).
\<close>

theorem registry_sorted:
  "register_all pfn rtap eo_init calls = Inr s \<Longrightarrow>
   sorted_wrt (\<lambda>a b. g_ascii_strcasecmp a b \<le> 0) (table_names pfn s) \<and>
   mset (table_names pfn s) = mset (map (\<lambda>c. pfn (fst c)) calls) \<and>
   mset (registered_eo_tables s) = mset [0..<length calls] \<and>
   eo_iterate_tables s func user_data w =
     foldl (\<lambda>w eo. func eo user_data w) w (registered_eo_tables s) \<and>
   eo_iterate_tables s (\<lambda>eo u visited. visited @ [(eo, u)]) user_data [] =
     map (\<lambda>eo. (eo, user_data)) (registered_eo_tables s)"
proof (intro conjI)
  assume reg: "register_all pfn rtap eo_init calls = Inr s"
  from register_all_invariant [OF reg eo_init_valid]
  show "sorted_wrt (\<lambda>a b. g_ascii_strcasecmp a b \<le> 0) (table_names pfn s)"
    by (simp add: sorted_names)
  from register_all_frame [OF reg]
  have heap: "eo_heap s = map (new_table pfn) calls"
    and m: "mset (registered_eo_tables s) = mset [0..<length calls]"
    by (simp_all add: eo_init_def)
  show "mset (registered_eo_tables s) = mset [0..<length calls]" by (rule m)
  have "mset (table_names pfn s)
          = image_mset (\<lambda>p. pfn (proto_id (eo_heap s ! p))) (mset (registered_eo_tables s))"
    by (simp add: table_names_def)
  also have "\<dots> = mset (map (\<lambda>p. pfn (proto_id (eo_heap s ! p))) [0..<length calls])"
    unfolding m by simp
  also have "map (\<lambda>p. pfn (proto_id (eo_heap s ! p))) [0..<length calls]
               = map (\<lambda>c. pfn (fst c)) calls"
    by (rule nth_equalityI) (simp_all add: heap new_table_def)
  finally show "mset (table_names pfn s) = mset (map (\<lambda>c. pfn (fst c)) calls)" .
next
  show "eo_iterate_tables s func user_data w =
          foldl (\<lambda>w eo. func eo user_data w) w (registered_eo_tables s)"
    by (simp add: eo_iterate_tables_def foreach_foldl)
  show "eo_iterate_tables s (\<lambda>eo u visited. visited @ [(eo, u)]) user_data [] =
          map (\<lambda>eo. (eo, user_data)) (registered_eo_tables s)"
    by (simp add: eo_iterate_tables_def foreach_log)
qed

text \<open>Claim C5 on three calls: \<open>smb\<close>, \<open>HTTP\<close> and \<open>dicom\<close> are listed as \<open>dicom\<close>, \<open>HTTP\<close>, \<open>smb\<close>.\<close>

theorem registry_sorted_witness:
  "register_all demo_filter_name demo_register_tap eo_init demo_calls = Inr demo_state \<and>
   table_names demo_filter_name demo_state = [''dicom'', ''HTTP'', ''smb''] \<and>
   sorted_wrt (\<lambda>a b. g_ascii_strcasecmp a b \<le> 0) (table_names demo_filter_name demo_state) \<and>
   eo_iterate_tables demo_state (\<lambda>eo u visited. visited @ [(eo, u)]) (42 :: nat) [] =
     [(2, 42), (1, 42), (0, 42)]"
proof -
  note reg = demo_registered
  have names: "table_names demo_filter_name demo_state = [''dicom'', ''HTTP'', ''smb'']"
    by code_simp
  have "registered_eo_tables demo_state = [2, 1, 0]"
    by (simp add: demo_state_def)
  with registry_sorted [OF reg, of "\<lambda>eo u visited. visited @ [(eo, u)]" "42 :: nat" "[]"] reg names
  show ?thesis by simp
qed

text \<open>
  Claim C9. With a \<open>NULL\<close> \<open>export_packet_func\<close> the call ends in the failed
  \<open>DISSECTOR_ASSERT\<close>. With any other, in a state reached by calls that returned, the call
  returns: the new table holds the protocol, the name \<open><filter name>_eo\<close> and the two
  callbacks, it is in the list, and the value returned is that of \<open>register_tap\<close> on that name.
\<close>

theorem register_export_object_assertion:
  "register_export_object pfn rtap s p None r = Inl Assertion_Failed \<and>
   (register_all pfn rtap eo_init calls = Inr s \<and> f \<noteq> None \<longrightarrow>
      (\<exists>s'. register_export_object pfn rtap s p f r = Inr (rtap (pfn p @ ''_eo''), s') \<and>
            eo_heap s' =
              eo_heap s @ [\<lparr>proto_id = p, tap_listen_str = pfn p @ ''_eo'',
                             eo_func = f, reset_cb = r\<rparr>] \<and>
            length (eo_heap s) \<in> set (registered_eo_tables s') \<and>
            get_eo_tap_listener_name s' (Some (length (eo_heap s))) = Inr (pfn p @ ''_eo'')))"
proof (intro conjI impI)
  show "register_export_object pfn rtap s p None r = Inl Assertion_Failed"
    by (simp add: register_export_object_def)
next
  assume "register_all pfn rtap eo_init calls = Inr s \<and> f \<noteq> None"
  then have reg: "register_all pfn rtap eo_init calls = Inr s" and f: "f \<noteq> None" by simp_all
  from registered_state(1) [OF reg] have "eo_valid s" .
  from register_valid [OF this f, of pfn rtap p r] obtain s' where
    one: "register_export_object pfn rtap s p f r = Inr (rtap (pfn p @ ''_eo''), s')"
    by blast
  note heap = register_result(3) [OF one]
  have "set (registered_eo_tables s') = insert (length (eo_heap s)) (set (registered_eo_tables s))"
    using register_result(4) [OF one] by (metis set_mset_add_mset_insert set_mset_mset)
  then have "length (eo_heap s) \<in> set (registered_eo_tables s')" by simp
  moreover have "get_eo_tap_listener_name s' (Some (length (eo_heap s))) = Inr (pfn p @ ''_eo'')"
    by (simp add: get_eo_tap_listener_name_def deref_def heap new_table_def)
  ultimately show "\<exists>s'. register_export_object pfn rtap s p f r = Inr (rtap (pfn p @ ''_eo''), s') \<and>
            eo_heap s' =
              eo_heap s @ [\<lparr>proto_id = p, tap_listen_str = pfn p @ ''_eo'',
                             eo_func = f, reset_cb = r\<rparr>] \<and>
            length (eo_heap s) \<in> set (registered_eo_tables s') \<and>
            get_eo_tap_listener_name s' (Some (length (eo_heap s))) = Inr (pfn p @ ''_eo'')"
    using one heap by (auto simp: new_table_def)
qed

theorem register_export_object_assertion_witness:
  "register_all demo_filter_name demo_register_tap eo_init demo_calls = Inr demo_state \<and>
   (Some 3 :: tap_packet_cb) \<noteq> None \<and>
   (\<exists>s'. register_export_object demo_filter_name demo_register_tap demo_state 2 (Some 3) None
           = Inr (demo_register_tap ''HTTP_eo'', s') \<and>
         get_eo_tap_listener_name s' (Some 3) = Inr ''HTTP_eo'')"
proof -
  note reg = demo_registered
  have f: "(Some 3 :: tap_packet_cb) \<noteq> None" by simp
  have len: "length (eo_heap demo_state) = 3" by (simp add: demo_state_def)
  have name: "demo_filter_name 2 = ''HTTP''" by (simp add: demo_filter_name_def)
  from register_export_object_assertion
         [of demo_filter_name demo_register_tap demo_state 2 None demo_calls "Some 3",
          THEN conjunct2, rule_format, OF conjI [OF reg f]]
  obtain s' where
    "register_export_object demo_filter_name demo_register_tap demo_state 2 (Some 3) None
       = Inr (demo_register_tap (demo_filter_name 2 @ ''_eo''), s')"
    "get_eo_tap_listener_name s' (Some (length (eo_heap demo_state))) = Inr (demo_filter_name 2 @ ''_eo'')"
    by blast
  then have "register_export_object demo_filter_name demo_register_tap demo_state 2 (Some 3) None
           = Inr (demo_register_tap ''HTTP_eo'', s') \<and>
         get_eo_tap_listener_name s' (Some 3) = Inr ''HTTP_eo''"
    by (simp add: len name)
  with reg f show ?thesis by blast
qed

text \<open>
  Claim C10. Further calls of \<open>register_export_object\<close> leave every table allocated before
  them as it was: the four accessors return the same values on a pointer to it, it stays
  in the list as often as it was (never removed), and both the heap and the list grow by
  one element for each call.
\<close>

theorem register_export_object_frame:
  "register_all pfn rtap s calls = Inr s' \<Longrightarrow> eo < length (eo_heap s) \<Longrightarrow>
   get_eo_proto_id s' (Some eo) = get_eo_proto_id s (Some eo) \<and>
   get_eo_tap_listener_name s' (Some eo) = get_eo_tap_listener_name s (Some eo) \<and>
   get_eo_packet_func s' (Some eo) = get_eo_packet_func s (Some eo) \<and>
   get_eo_reset_func s' (Some eo) = get_eo_reset_func s (Some eo) \<and>
   eo_heap s' ! eo = eo_heap s ! eo \<and>
   count (mset (registered_eo_tables s')) eo = count (mset (registered_eo_tables s)) eo \<and>
   length (eo_heap s') = length (eo_heap s) + length calls \<and>
   length (registered_eo_tables s') = length (registered_eo_tables s) + length calls"
proof -
  assume reg: "register_all pfn rtap s calls = Inr s'" and eo: "eo < length (eo_heap s)"
  from register_all_frame [OF reg]
  have heap: "eo_heap s' = eo_heap s @ map (new_table pfn) calls"
    and m: "mset (registered_eo_tables s') =
              mset (registered_eo_tables s)
                + mset [length (eo_heap s)..<length (eo_heap s) + length calls]"
    by simp_all
  from heap eo have same: "eo_heap s' ! eo = eo_heap s ! eo" and lt: "eo < length (eo_heap s')"
    by (simp_all add: nth_append)
  have "eo \<notin> set [length (eo_heap s)..<length (eo_heap s) + length calls]"
    using eo by simp
  then have "count (mset [length (eo_heap s)..<length (eo_heap s) + length calls]) eo = 0"
    by (metis count_mset_0_iff)
  with m have cnt: "count (mset (registered_eo_tables s')) eo = count (mset (registered_eo_tables s)) eo"
    by simp
  from m have "size (mset (registered_eo_tables s')) =
                 size (mset (registered_eo_tables s)
                   + mset [length (eo_heap s)..<length (eo_heap s) + length calls])"
    by simp
  then have len: "length (registered_eo_tables s') = length (registered_eo_tables s) + length calls"
    by (simp only: size_mset size_union length_upt)
  from same lt eo cnt len heap show ?thesis
    by (simp add: get_eo_proto_id_def get_eo_tap_listener_name_def get_eo_packet_func_def
          get_eo_reset_func_def deref_def)
qed

theorem register_export_object_frame_witness:
  "register_all demo_filter_name demo_register_tap demo_state [(4, Some 3, None)] =
     Inr \<lparr>eo_heap = eo_heap demo_state @
             [\<lparr>proto_id = 4, tap_listen_str = ''dicom_eo'', eo_func = Some 3, reset_cb = None\<rparr>],
          registered_eo_tables = [3, 2, 1, 0]\<rparr> \<and>
   (2 :: nat) < length (eo_heap demo_state) \<and>
   get_eo_proto_id
     \<lparr>eo_heap = eo_heap demo_state @
             [\<lparr>proto_id = 4, tap_listen_str = ''dicom_eo'', eo_func = Some 3, reset_cb = None\<rparr>],
      registered_eo_tables = [3, 2, 1, 0]\<rparr> (Some 2) = Inr 3 \<and>
   get_eo_proto_id demo_state (Some 2) = Inr 3"
proof -
  note reg = demo_registered_more
  have lt: "(2 :: nat) < length (eo_heap demo_state)" by (simp add: demo_state_def)
  have old: "get_eo_proto_id demo_state (Some 2) = Inr 3"
    by (simp add: get_eo_proto_id_def deref_def demo_state_def)
  from register_export_object_frame [OF reg lt, THEN conjunct1] old
  have new: "get_eo_proto_id
     \<lparr>eo_heap = eo_heap demo_state @
             [\<lparr>proto_id = 4, tap_listen_str = ''dicom_eo'', eo_func = Some 3, reset_cb = None\<rparr>],
      registered_eo_tables = [3, 2, 1, 0]\<rparr> (Some 2) = Inr 3"
    by (rule trans)
  from reg lt new old show ?thesis
    by (intro conjI)
qed

subsection \<open>Lookup by name\<close>

lemma strcmp_eq: "strcmp s1 s2 = 0 \<longleftrightarrow> s1 = s2"
  by (induction s1 s2 rule: strcmp.induct) auto

lemma loop_find:
  "sz = length (registered_eo_tables s) \<Longrightarrow> eo_valid s \<Longrightarrow>
   get_eo_by_name_loop pfn s name i sz =
     Inr (find (\<lambda>q. pfn (proto_id (eo_heap s ! q)) = name) (drop i (registered_eo_tables s)))"
proof (induction pfn s name i sz rule: get_eo_by_name_loop.induct)
  case (1 pfn s name i sz)
  let ?l = "registered_eo_tables s"
  show ?case
  proof (cases "i < sz")
    case False
    with "1.prems" show ?thesis
      by (subst get_eo_by_name_loop.simps) simp
  next
    case True
    with "1.prems" have i: "i < length ?l" by simp
    then have nth: "g_slist_nth ?l i = Some (drop i ?l)"
      by (simp add: g_slist_nth_def)
    from i have hd: "hd (drop i ?l) = ?l ! i" by (simp add: hd_drop_conv_nth)
    from i "1.prems"(2) have "?l ! i < length (eo_heap s)"
      by (simp add: eo_valid_def)
    then have d: "deref (eo_heap s) (hd (drop i ?l)) = Inr (eo_heap s ! (?l ! i))"
      and d': "deref (eo_heap s) (?l ! i) = Inr (eo_heap s ! (?l ! i))"
      by (simp_all add: deref_def hd)
    from i have dr: "drop i ?l = ?l ! i # drop (Suc i) ?l"
      by (simp add: Cons_nth_drop_Suc)
    show ?thesis
    proof (cases "strcmp name (pfn (proto_id (eo_heap s ! (?l ! i)))) = 0")
      case eq: True
      then have "pfn (proto_id (eo_heap s ! (?l ! i))) = name" by (simp add: strcmp_eq)
      then have "find (\<lambda>q. pfn (proto_id (eo_heap s ! q)) = name) (drop i ?l) = Some (?l ! i)"
        by (subst dr) simp
      moreover have "get_eo_by_name_loop pfn s name i sz = Inr (Some (?l ! i))"
        using True eq by (subst get_eo_by_name_loop.simps) (simp add: nth d d' hd)
      ultimately show ?thesis by simp
    next
      case ne: False
      then have "pfn (proto_id (eo_heap s ! (?l ! i))) \<noteq> name" by (simp add: strcmp_eq)
      then have "find (\<lambda>q. pfn (proto_id (eo_heap s ! q)) = name) (drop i ?l)
                   = find (\<lambda>q. pfn (proto_id (eo_heap s ! q)) = name) (drop (Suc i) ?l)"
        by (subst dr) simp
      moreover have "get_eo_by_name_loop pfn s name i sz = get_eo_by_name_loop pfn s name (i + 1) sz"
        using True ne by (subst get_eo_by_name_loop.simps) (simp add: nth d d' hd)
      moreover have "get_eo_by_name_loop pfn s name (i + 1) sz =
          Inr (find (\<lambda>q. pfn (proto_id (eo_heap s ! q)) = name) (drop (i + 1) ?l))"
        using True nth d ne hd "1.prems"
        by (intro "1.IH" [of "drop i ?l" "eo_heap s ! (?l ! i)"]) simp_all
      ultimately show ?thesis by simp
    qed
  qed
qed

lemma get_eo_by_name_find:
  "eo_valid s \<Longrightarrow>
   get_eo_by_name pfn s name =
     Inr (find (\<lambda>q. pfn (proto_id (eo_heap s ! q)) = name) (registered_eo_tables s))"
  by (simp add: get_eo_by_name_def loop_find)

text \<open>
  Claim C6. After any sequence of calls that return, \<open>get_eo_by_name\<close> on the filter name
  of a registered protocol returns a registered table with exactly that filter name, which
  holds what its call of \<open>register_export_object\<close> stored; when no two calls have the same
  filter name, it is the table of that protocol's call. On a name that is the filter name
  of no call, and on any name before the first call, it returns \<open>NULL\<close>. The comparison
  is \<open>strcmp\<close>: equality of the two strings, byte by byte.
\<close>

theorem get_eo_by_name_lookup:
  "register_all pfn rtap eo_init calls = Inr s \<Longrightarrow>
   (\<forall>p f r. (p, f, r) \<in> set calls \<longrightarrow>
      (\<exists>eo. get_eo_by_name pfn s (pfn p) = Inr (Some eo) \<and>
            eo < length calls \<and> pfn (fst (calls ! eo)) = pfn p \<and>
            eo_heap s ! eo =
              \<lparr>proto_id = fst (calls ! eo), tap_listen_str = pfn (fst (calls ! eo)) @ ''_eo'',
               eo_func = fst (snd (calls ! eo)), reset_cb = snd (snd (calls ! eo))\<rparr> \<and>
            (distinct (map (\<lambda>c. pfn (fst c)) calls) \<longrightarrow> calls ! eo = (p, f, r)))) \<and>
   (\<forall>name. name \<notin> set (map (\<lambda>c. pfn (fst c)) calls) \<longrightarrow> get_eo_by_name pfn s name = Inr None) \<and>
   (\<forall>name. get_eo_by_name pfn eo_init name = Inr None)"
proof (intro conjI allI impI)
  fix p f r
  assume reg: "register_all pfn rtap eo_init calls = Inr s" and c: "(p, f, r) \<in> set calls"
  note st = registered_state [OF reg]
  let ?P = "\<lambda>q. pfn (proto_id (eo_heap s ! q)) = pfn p"
  have name: "pfn (proto_id (eo_heap s ! q)) = pfn (fst (calls ! q))" if "q < length calls" for q
    using that by (simp add: st(2) new_table_def)
  from c obtain j where j: "j < length calls" and cj: "calls ! j = (p, f, r)"
    by (auto simp: in_set_conv_nth)
  from j cj have "j \<in> set (registered_eo_tables s)" and "?P j"
    by (simp_all add: st(3) name)
  then have "find ?P (registered_eo_tables s) \<noteq> None"
    by (auto simp: find_None_iff)
  then obtain eo where found: "find ?P (registered_eo_tables s) = Some eo" by auto
  then have eo: "eo \<in> set (registered_eo_tables s)" and Peo: "?P eo"
    by (auto simp: find_Some_iff)
  from eo have lt: "eo < length calls" by (simp add: st(3))
  have "get_eo_by_name pfn s (pfn p) = Inr (Some eo)"
    by (simp add: get_eo_by_name_find [OF st(1)] found)
  moreover from Peo lt have same: "pfn (fst (calls ! eo)) = pfn p" by (simp add: name)
  moreover have "eo_heap s ! eo =
              \<lparr>proto_id = fst (calls ! eo), tap_listen_str = pfn (fst (calls ! eo)) @ ''_eo'',
               eo_func = fst (snd (calls ! eo)), reset_cb = snd (snd (calls ! eo))\<rparr>"
    using lt by (simp add: st(2) new_table_def)
  moreover have "calls ! eo = (p, f, r)" if d: "distinct (map (\<lambda>c. pfn (fst c)) calls)"
  proof -
    have eq: "map (\<lambda>c. pfn (fst c)) calls ! eo = map (\<lambda>c. pfn (fst c)) calls ! j"
      using lt j same cj by simp
    have "eo < length (map (\<lambda>c. pfn (fst c)) calls)" and "j < length (map (\<lambda>c. pfn (fst c)) calls)"
      using lt j by simp_all
    from nth_eq_iff_index_eq [OF d this] eq have "eo = j" by blast
    with cj show ?thesis by simp
  qed
  ultimately show "\<exists>eo. get_eo_by_name pfn s (pfn p) = Inr (Some eo) \<and>
            eo < length calls \<and> pfn (fst (calls ! eo)) = pfn p \<and>
            eo_heap s ! eo =
              \<lparr>proto_id = fst (calls ! eo), tap_listen_str = pfn (fst (calls ! eo)) @ ''_eo'',
               eo_func = fst (snd (calls ! eo)), reset_cb = snd (snd (calls ! eo))\<rparr> \<and>
            (distinct (map (\<lambda>c. pfn (fst c)) calls) \<longrightarrow> calls ! eo = (p, f, r))"
    using lt by blast
next
  fix name
  assume reg: "register_all pfn rtap eo_init calls = Inr s"
    and no: "name \<notin> set (map (\<lambda>c. pfn (fst c)) calls)"
  note st = registered_state [OF reg]
  have "pfn (proto_id (eo_heap s ! q)) \<noteq> name" if "q \<in> set (registered_eo_tables s)" for q
  proof -
    from that have q: "q < length calls" by (simp add: st(3))
    then have "pfn (proto_id (eo_heap s ! q)) = map (\<lambda>c. pfn (fst c)) calls ! q"
      by (simp add: st(2) new_table_def)
    with q no show ?thesis by (metis length_map nth_mem)
  qed
  then have "find (\<lambda>q. pfn (proto_id (eo_heap s ! q)) = name) (registered_eo_tables s) = None"
    by (simp add: find_None_iff)
  then show "get_eo_by_name pfn s name = Inr None"
    by (simp add: get_eo_by_name_find [OF st(1)])
next
  fix name
  have "registered_eo_tables eo_init = []" by (simp add: eo_init_def)
  then show "get_eo_by_name pfn eo_init name = Inr None"
    by (simp add: get_eo_by_name_find [OF eo_init_valid(1)])
qed

text \<open>Claim C6 on the same calls: \<open>HTTP\<close> is found, \<open>http\<close> is not.\<close>

theorem get_eo_by_name_lookup_witness:
  "register_all demo_filter_name demo_register_tap eo_init demo_calls = Inr demo_state \<and>
   (2, Some 8, Some 9) \<in> set demo_calls \<and>
   distinct (map (\<lambda>c. demo_filter_name (fst c)) demo_calls) \<and>
   get_eo_by_name demo_filter_name demo_state (demo_filter_name 2) = Inr (Some 1) \<and>
   demo_calls ! 1 = (2, Some 8, Some 9) \<and>
   ''http'' \<notin> set (map (\<lambda>c. demo_filter_name (fst c)) demo_calls) \<and>
   get_eo_by_name demo_filter_name demo_state ''http'' = Inr None"
proof -
  note reg = demo_registered
  note look = get_eo_by_name_lookup [OF reg]
  have c: "(2, Some 8, Some 9) \<in> set demo_calls"
    by (simp add: demo_calls_def)
  have d: "distinct (map (\<lambda>c. demo_filter_name (fst c)) demo_calls)"
    by (simp add: demo_calls_def demo_filter_name_def)
  have n: "''http'' \<notin> set (map (\<lambda>c. demo_filter_name (fst c)) demo_calls)"
    by (simp add: demo_calls_def demo_filter_name_def)
  from look [THEN conjunct1, rule_format, OF c] d
  obtain eo where found: "get_eo_by_name demo_filter_name demo_state (demo_filter_name 2) = Inr (Some eo)"
    and eo: "demo_calls ! eo = (2, Some 8, Some 9)" and lt: "eo < length demo_calls"
    by blast
  have "eo = 1"
    using eo lt by (cases "eo = 0"; cases "eo = 1"; cases "eo = 2") (simp_all add: demo_calls_def)
  with found have f1: "get_eo_by_name demo_filter_name demo_state (demo_filter_name 2) = Inr (Some 1)"
    by simp
  have c1: "demo_calls ! 1 = (2, Some 8, Some 9)"
    by (simp add: demo_calls_def)
  from look [THEN conjunct2, THEN conjunct1, rule_format, OF n]
  have f2: "get_eo_by_name demo_filter_name demo_state ''http'' = Inr None" .
  from reg c d f1 c1 n f2 show ?thesis by blast
qed

subsection \<open>Content types\<close>

text \<open>
  Claim C8 as stated fails: \<open>eo_ct2ext\<close> has no table of content types, so no content type
  has a mapping, and yet the result is not the sentinel \<open>NULL\<close>.
\<close>

theorem eo_ct2ext_counterexample:
  "eo_ct2ext (Some ''application/x-no-such-type'') \<noteq> None"
  by (simp add: eo_ct2ext_def)

text \<open>
  Claim C8, as amended. \<open>eo_ct2ext\<close> returns its argument unchanged, whatever it is; it
  returns \<open>NULL\<close> only for the argument \<open>NULL\<close>, and so never reports a missing mapping.
\<close>

theorem eo_ct2ext_pass_through:
  "eo_ct2ext content_type = content_type \<and>
   (eo_ct2ext content_type = None \<longleftrightarrow> content_type = None)"
  by (simp add: eo_ct2ext_def)

end
